theory Spec2Isabelle
  imports Complex_Main "HOL-Library.Word"
begin

unbundle bit_operations_syntax

section \<open>GumballSound firmware (ATtiny13a): data model\<close>

text \<open>
  The firmware is compiled with avr-gcc for the ATtiny13a: \<open>uint8_t\<close> is an 8-bit word,
  \<open>uint16_t\<close> and \<open>int\<close> are 16 bits wide, \<open>uint32_t\<close> and \<open>unsigned long int\<close>
  are 32 bits wide. Unsigned arithmetic wraps around; overflow of the signed \<open>int\<close> is
  undefined in C and is a fault of the model.
\<close>

type_synonym u8 = "8 word"
type_synonym u16 = "16 word"
type_synonym u32 = "32 word"

text \<open>
  Every access of the program to a special function register or to a table in program
  memory is recorded, in program order, as an event: the statement executed and its
  operand. \<open>Or_PINB m\<close> is one execution of \<open>PINB |= m\<close> (one tick of the delay loop),
  \<open>Xor_PORTB m\<close> one execution of \<open>PORTB ^= m\<close>, \<open>Set_OCR0A v\<close> one write of a sample
  to the PWM compare register, \<open>PgmRead_gumballWavTab i\<close> one \<open>pgm_read_byte\<close> of
  \<open>gumballWavTab[i]\<close>, and so on.
\<close>

datatype event =
    PgmRead_gumballWavTab u8
  | PgmRead_gumballPitch u8
  | PgmRead_pitchDuration u8
  | Set_OCR0A u8
  | Or_PORTB u8
  | And_PORTB u8
  | Xor_PORTB u8
  | Or_PINB u8

text \<open>
  The registers the loop writes and reads back (\<open>PORTB\<close>, \<open>OCR0A\<close>) and the event log.
  \<open>PINB\<close> is the pin-input register: the model logs the write to it and keeps no value
  for it.
\<close>

record io =
  PORTB :: u8
  OCR0A :: u8
  trace :: "event list"

datatype fault = DivisionByZero | IntOverflow | ReadPastTable

text \<open>
  The macro \<open>B8(d)\<close>: the digits \<open>d\<close> are read as the hexadecimal constant \<open>0xd\<close>, and
  each non-zero nibble contributes one bit.
\<close>

definition B8 :: "u32 \<Rightarrow> u8" where
  "B8 x = (if x AND 0x0000000F \<noteq> 0 then 1 else 0)
        + (if x AND 0x000000F0 \<noteq> 0 then 2 else 0)
        + (if x AND 0x00000F00 \<noteq> 0 then 4 else 0)
        + (if x AND 0x0000F000 \<noteq> 0 then 8 else 0)
        + (if x AND 0x000F0000 \<noteq> 0 then 16 else 0)
        + (if x AND 0x00F00000 \<noteq> 0 then 32 else 0)
        + (if x AND 0x0F000000 \<noteq> 0 then 64 else 0)
        + (if x AND 0xF0000000 \<noteq> 0 then 128 else 0)"

definition PINB_or :: "u8 \<Rightarrow> 'a io_scheme \<Rightarrow> 'a io_scheme" where
  "PINB_or m s = s\<lparr>trace := trace s @ [Or_PINB m]\<rparr>"

definition PORTB_or :: "u8 \<Rightarrow> 'a io_scheme \<Rightarrow> 'a io_scheme" where
  "PORTB_or m s = s\<lparr>PORTB := PORTB s OR m, trace := trace s @ [Or_PORTB m]\<rparr>"

definition PORTB_and :: "u8 \<Rightarrow> 'a io_scheme \<Rightarrow> 'a io_scheme" where
  "PORTB_and m s = s\<lparr>PORTB := PORTB s AND m, trace := trace s @ [And_PORTB m]\<rparr>"

definition PORTB_xor :: "u8 \<Rightarrow> 'a io_scheme \<Rightarrow> 'a io_scheme" where
  "PORTB_xor m s = s\<lparr>PORTB := PORTB s XOR m, trace := trace s @ [Xor_PORTB m]\<rparr>"

definition OCR0A_set :: "u8 \<Rightarrow> 'a io_scheme \<Rightarrow> 'a io_scheme" where
  "OCR0A_set v s = s\<lparr>OCR0A := v, trace := trace s @ [Set_OCR0A v]\<rparr>"

section \<open>The tables\<close>

definition gumballWavTabSize :: u8 where
  "gumballWavTabSize = 92"

definition gumballWavTab :: "u8 list" where
  "gumballWavTab = [
     0x8a, 0xb1, 0x55, 0x4d, 0xb2, 0x90, 0x43, 0x8f, 0xb7, 0x4f, 0x54, 0xbd,
     0x8c, 0x35, 0x98, 0xb8, 0x3a, 0x70, 0xcb, 0x4c, 0x51, 0xd7, 0x5d, 0x47,
     0xd2, 0x69, 0x3a, 0xde, 0x54, 0x4c, 0xe4, 0x30, 0x7b, 0xcf, 0x0f, 0xc5,
     0x82, 0x2e, 0xf3, 0x13, 0xb2, 0x91, 0x2c, 0xf5, 0x01, 0xe0, 0x45, 0x83,
     0xa8, 0x2e, 0xe9, 0x05, 0xf6, 0x13, 0xd3, 0x47, 0x96, 0x80, 0x61, 0xac,
     0x3e, 0xc9, 0x26, 0xdc, 0x1d, 0xdc, 0x27, 0xc6, 0x43, 0xa8, 0x60, 0x89,
     0x83, 0x65, 0xac, 0x40, 0xc6, 0x30, 0xc2, 0x45, 0xa0, 0x74, 0x6e, 0xa5,
     0x46, 0xba, 0x4b, 0x94, 0x89, 0x56, 0xb7, 0x59]"

record pitchElement =
  gumballPitch :: u8
  pitchDuration :: u16

definition pe :: "u8 \<Rightarrow> u16 \<Rightarrow> pitchElement" where
  "pe p d = \<lparr>gumballPitch = p, pitchDuration = d\<rparr>"

definition pitchTab :: "pitchElement list" where
  "pitchTab = [
     pe 100 280, pe 150 250, pe 180 300, pe 90 800, pe 120 500,
     pe 200 50, pe 120 280, pe 95 282, pe 90 285, pe 180 350,
     pe 150 380, pe 120 280, pe 95 410, pe 90 285, pe 70 500,
     pe 200 50, pe 70 180, pe 65 1000, pe 70 150, pe 80 180,
     pe 90 285, pe 80 270, pe 12 50, pe 50 2000, pe 200 500,
     pe 80 500, pe 100 500, pe 255 800, pe 100 100, pe 96 100,
     pe 92 100, pe 88 200, pe 84 250, pe 80 300, pe 77 350,
     pe 74 400, pe 71 200, pe 68 200, pe 65 200, pe 62 200,
     pe 59 190, pe 56 180, pe 53 170, pe 53 160, pe 50 150,
     pe 48 140, pe 46 130, pe 44 120, pe 42 110, pe 40 100,
     pe 38 100, pe 36 100, pe 34 100, pe 32 100, pe 30 100,
     pe 28 100, pe 26 100, pe 24 100, pe 22 90, pe 20 70,
     pe 18 60, pe 16 50, pe 14 40, pe 10 100, pe 16 50,
     pe 20 70, pe 36 100, pe 50 150, pe 62 200, pe 71 200,
     pe 80 150, pe 92 130,
     pe 0 0]"

section \<open>delaySomeTime\<close>

definition TENTH_MS :: u32 where
  "TENTH_MS = 112"

definition SAMP :: u32 where
  "SAMP = 10"

text \<open>
  The inner \<open>for (timer=0; timer <= delayCount; timer++) {PINB |= B8(00100000);}\<close>, entered
  with the current value of \<open>timer\<close>. The loop need not terminate, so \<open>None\<close> stands for a
  call that never returns.
\<close>

partial_function (option) delay_for :: "u32 \<Rightarrow> u32 \<Rightarrow> 'a io_scheme \<Rightarrow> 'a io_scheme option" where
  "delay_for timer delayCount s =
     (if timer \<le> delayCount
      then delay_for (timer + 1) delayCount (PINB_or (B8 0x00100000) s)
      else Some s)"

declare delay_for.simps [code]

partial_function (option) delaySomeTime :: "u32 \<Rightarrow> u32 \<Rightarrow> 'a io_scheme \<Rightarrow> 'a io_scheme option" where
  "delaySomeTime units delayCount s =
     (if units \<noteq> 0
      then Option.bind (delay_for 0 delayCount s) (\<lambda>s'. delaySomeTime (units - 1) delayCount s')
      else Some s)"

declare delaySomeTime.simps [code]

section \<open>Results of calls\<close>

text \<open>
  A call that can fault returns \<open>None\<close> when it never returns, \<open>Some (Inl e)\<close> when it
  stops in the fault \<open>e\<close>, and \<open>Some (Inr s)\<close> when it returns in state \<open>s\<close>.
\<close>

abbreviation bindR :: "(fault + 'a) option \<Rightarrow> ('a \<Rightarrow> (fault + 'b) option) \<Rightarrow> (fault + 'b) option" where
  "bindR m f \<equiv> Option.bind m (\<lambda>r. case r of Inl e \<Rightarrow> Some (Inl e) | Inr x \<Rightarrow> f x)"

section \<open>blink_LEDs\<close>

text \<open>
  \<open>for (int i=0; i<(duration/(onTime+offTime)); i++) { ... }\<close>, entered with the current
  value of \<open>i\<close>. The condition is evaluated before every iteration: the division faults
  on a zero divisor, and the 16-bit \<open>int i\<close> is converted to \<open>unsigned long\<close> for the
  comparison. Incrementing \<open>i\<close> beyond 32767 is a signed overflow.
\<close>

partial_function (option) blink_for ::
  "16 word \<Rightarrow> u32 \<Rightarrow> u32 \<Rightarrow> u32 \<Rightarrow> 'a io_scheme \<Rightarrow> (fault + 'a io_scheme) option" where
  "blink_for i duration onTime offTime s =
     (if onTime + offTime = 0 then Some (Inl DivisionByZero)
      else if scast i < duration div (onTime + offTime) then
        Option.bind (delaySomeTime onTime TENTH_MS (PORTB_or (B8 0x00001110) s)) (\<lambda>s1.
        Option.bind (delaySomeTime offTime TENTH_MS (PORTB_and (B8 0x11110001) s1)) (\<lambda>s2.
          if i = 0x7FFF then Some (Inl IntOverflow)
          else blink_for (i + 1) duration onTime offTime s2))
      else Some (Inr s))"

declare blink_for.simps [code]

definition blink_LEDs :: "u32 \<Rightarrow> u32 \<Rightarrow> u32 \<Rightarrow> 'a io_scheme \<Rightarrow> (fault + 'a io_scheme) option" where
  "blink_LEDs duration onTime offTime s = blink_for 0 duration onTime offTime s"

section \<open>main: the playback sequencer\<close>

text \<open>
  The local variables of \<open>main\<close>, on top of the registers. The set-up of the timer and
  of the port direction before the loop (\<open>DDRB\<close>, \<open>TCCR0A\<close>, \<open>TCCR0B\<close>) writes registers
  that the loop never accesses, and is not modelled.
\<close>

record main_vars = io +
  gumIndex :: u8
  gumWavDat :: u8
  pitchIndex :: u8
  pitchRate :: u8
  pitchLen :: u16

text \<open>
  \<open>gumWavDat = pgm_read_byte( &( gumballWavTab[gumIndex] ) )\<close>. A read beyond the end of
  a table is a fault of the model.
\<close>

definition read_gumballWavTab :: "main_vars \<Rightarrow> fault + main_vars" where
  "read_gumballWavTab s =
     (if unat (gumIndex s) < length gumballWavTab
      then Inr (s\<lparr>gumWavDat := gumballWavTab ! unat (gumIndex s),
                 trace := trace s @ [PgmRead_gumballWavTab (gumIndex s)]\<rparr>)
      else Inl ReadPastTable)"

text \<open>
  The two statements that load \<open>pitchRate\<close> and \<open>pitchLen\<close> from \<open>pitchTab[pitchIndex]\<close>.
  The pitch table is a parameter, so that the sequencer can be run on other tables
  than the one compiled in.
\<close>

definition read_pitchTab :: "pitchElement list \<Rightarrow> main_vars \<Rightarrow> fault + main_vars" where
  "read_pitchTab tab s =
     (if unat (pitchIndex s) < length tab
      then Inr (s\<lparr>pitchRate := gumballPitch (tab ! unat (pitchIndex s)),
                 pitchLen := pitchDuration (tab ! unat (pitchIndex s)),
                 trace := trace s @ [PgmRead_gumballPitch (pitchIndex s),
                                     PgmRead_pitchDuration (pitchIndex s)]\<rparr>)
      else Inl ReadPastTable)"

text \<open>The body of the \<open>for\<close> loop over \<open>j\<close>: one sample.\<close>

definition play_sample :: "main_vars \<Rightarrow> (fault + main_vars) option" where
  "play_sample s =
     (case read_gumballWavTab s of
        Inl e \<Rightarrow> Some (Inl e)
      | Inr s1 \<Rightarrow>
          Option.bind (delaySomeTime (ucast (pitchRate s1)) SAMP (OCR0A_set (gumWavDat s1) s1)) (\<lambda>s2.
            let s3 = s2\<lparr>gumIndex := gumIndex s2 + 1\<rparr> in
            if gumIndex s3 \<ge> gumballWavTabSize then
              let s4 = s3\<lparr>gumIndex := 0\<rparr>;
                  s5 = (if pitchRate s4 mod 50 = 0 \<or> pitchRate s4 mod 20 = 0
                        then PORTB_xor (B8 0x00000100) s4 else s4);
                  s6 = (if pitchRate s5 mod 40 = 0 \<or> pitchRate s5 mod 10 = 0
                        then PORTB_xor (B8 0x00000010) s5 else s5)
              in Some (Inr s6)
            else Some (Inr s3)))"

text \<open>\<open>for ( uint32_t j=0; j<pitchLen; j++ ) { ... }\<close>, entered with the current \<open>j\<close>.\<close>

partial_function (option) play_for :: "u32 \<Rightarrow> main_vars \<Rightarrow> (fault + main_vars) option" where
  "play_for j s =
     (if j < ucast (pitchLen s)
      then bindR (play_sample s) (\<lambda>s1. play_for (j + 1) s1)
      else Some (Inr s))"

declare play_for.simps [code]

text \<open>
  The statements after the \<open>for\<close> loop: \<open>pitchIndex++\<close>, the two reads of the next
  entry, then \<open>PORTB ^= B8(00001000)\<close>.
\<close>

definition next_pitch :: "pitchElement list \<Rightarrow> main_vars \<Rightarrow> fault + main_vars" where
  "next_pitch tab s =
     (case read_pitchTab tab (s\<lparr>pitchIndex := pitchIndex s + 1\<rparr>) of
        Inl e \<Rightarrow> Inl e
      | Inr s1 \<Rightarrow> Inr (PORTB_xor (B8 0x00001000) s1))"

text \<open>\<open>while (pitchRate != 0) { ... }\<close>.\<close>

partial_function (option) pitch_while :: "pitchElement list \<Rightarrow> main_vars \<Rightarrow> (fault + main_vars) option" where
  "pitch_while tab s =
     (if pitchRate s \<noteq> 0
      then bindR (play_for 0 s) (\<lambda>s1.
             case next_pitch tab s1 of
               Inl e \<Rightarrow> Some (Inl e)
             | Inr s2 \<Rightarrow> pitch_while tab s2)
      else Some (Inr s))"

declare pitch_while.simps [code]

text \<open>The body of \<open>while (1)\<close>: one pass over the pitch table.\<close>

definition pass :: "pitchElement list \<Rightarrow> main_vars \<Rightarrow> (fault + main_vars) option" where
  "pass tab s =
     (case read_pitchTab tab (s\<lparr>gumIndex := 0, pitchIndex := 0\<rparr>) of
        Inl e \<Rightarrow> Some (Inl e)
      | Inr s1 \<Rightarrow> pitch_while tab s1)"

text \<open>
  \<open>while (1) { ... }\<close> never returns; \<open>main_loop n\<close> is its first \<open>n\<close> iterations.
\<close>

fun main_loop :: "nat \<Rightarrow> pitchElement list \<Rightarrow> main_vars \<Rightarrow> (fault + main_vars) option" where
  "main_loop 0 tab s = Some (Inr s)"
| "main_loop (Suc n) tab s = bindR (pass tab s) (\<lambda>s1. main_loop n tab s1)"

section \<open>Observations on the event log\<close>

text \<open>The samples written to \<open>OCR0A\<close>, and the table indices read, in order.\<close>

fun sample_of :: "event \<Rightarrow> u8 option" where
  "sample_of (Set_OCR0A v) = Some v"
| "sample_of _ = None"

fun wav_index_of :: "event \<Rightarrow> u8 option" where
  "wav_index_of (PgmRead_gumballWavTab i) = Some i"
| "wav_index_of _ = None"

fun pitch_index_of :: "event \<Rightarrow> u8 option" where
  "pitch_index_of (PgmRead_gumballPitch i) = Some i"
| "pitch_index_of _ = None"

definition samples :: "event list \<Rightarrow> u8 list" where
  "samples tr = List.map_filter sample_of tr"

definition wav_reads :: "event list \<Rightarrow> u8 list" where
  "wav_reads tr = List.map_filter wav_index_of tr"

definition pitch_reads :: "event list \<Rightarrow> u8 list" where
  "pitch_reads tr = List.map_filter pitch_index_of tr"

text \<open>The executions of \<open>PORTB ^= m\<close>, \<open>PORTB |= m\<close> and \<open>PORTB &= m\<close> in a log.\<close>

fun is_PORTB_event :: "event \<Rightarrow> bool" where
  "is_PORTB_event (Or_PORTB m) = True"
| "is_PORTB_event (And_PORTB m) = True"
| "is_PORTB_event (Xor_PORTB m) = True"
| "is_PORTB_event _ = False"

definition PORTB_events :: "event list \<Rightarrow> event list" where
  "PORTB_events tr = filter is_PORTB_event tr"

text \<open>
  The work of a call of \<open>delaySomeTime\<close>: the number of ticks of its inner loop, \<open>None\<close>
  when the call never returns.
\<close>

fun is_tick :: "event \<Rightarrow> bool" where
  "is_tick (Or_PINB m) = True"
| "is_tick _ = False"

definition delay_work :: "u32 \<Rightarrow> u32 \<Rightarrow> nat option" where
  "delay_work units delayCount =
     map_option (\<lambda>s. length (filter is_tick (trace s)))
       (delaySomeTime units delayCount \<lparr>PORTB = 0, OCR0A = 0, trace = []\<rparr>)"

text \<open>The state after \<open>n\<close> further ticks of the delay loop.\<close>

definition ticks :: "nat \<Rightarrow> 'a io_scheme \<Rightarrow> 'a io_scheme" where
  "ticks n s = s\<lparr>trace := trace s @ replicate n (Or_PINB (B8 0x00100000))\<rparr>"

text \<open>One period of \<open>blink_LEDs\<close>: LEDs on, delay, LEDs off, delay.\<close>

definition blink_period :: "u32 \<Rightarrow> u32 \<Rightarrow> 'a io_scheme \<Rightarrow> 'a io_scheme" where
  "blink_period onTime offTime s =
     ticks (unat offTime * 113) (PORTB_and 0xF1 (ticks (unat onTime * 113) (PORTB_or 0x0E s)))"

section \<open>Event logs of the sequencer in closed form\<close>

text \<open>
  The LED statements executed at a wraparound of the waveform index, for pitch value \<open>r\<close>.
\<close>

definition wrap_events :: "u8 \<Rightarrow> event list" where
  "wrap_events r =
     (if 50 dvd unat r \<or> 20 dvd unat r then [Xor_PORTB 0x04] else [])
     @ (if 40 dvd unat r \<or> 10 dvd unat r then [Xor_PORTB 0x02] else [])"

text \<open>
  The events of one iteration of the \<open>for\<close> loop, entered with waveform index \<open>g\<close> and pitch value \<open>r\<close>.
\<close>

definition sample_events :: "u8 \<Rightarrow> nat \<Rightarrow> event list" where
  "sample_events r g =
     [PgmRead_gumballWavTab (of_nat g), Set_OCR0A (gumballWavTab ! g)]
     @ replicate (unat r * 11) (Or_PINB 0x20)
     @ (if g = 91 then wrap_events r else [])"

text \<open>
  The events of \<open>n\<close> iterations of the \<open>for\<close> loop, entered with waveform index \<open>g\<close>.
\<close>

definition for_events :: "u8 \<Rightarrow> nat \<Rightarrow> nat \<Rightarrow> event list" where
  "for_events r g n = concat (map (\<lambda>m. sample_events r ((g + m) mod 92)) [0..<n])"

text \<open>
  The events of the \<open>while\<close> loop over the entries \<open>es\<close>, the first of which has index \<open>i\<close>, entered with waveform index \<open>g\<close>.
\<close>

fun entries_events :: "nat \<Rightarrow> nat \<Rightarrow> pitchElement list \<Rightarrow> event list" where
  "entries_events i g [] = []"
| "entries_events i g (e # es) =
     for_events (gumballPitch e) g (unat (pitchDuration e))
     @ [PgmRead_gumballPitch (of_nat (Suc i)), PgmRead_pitchDuration (of_nat (Suc i)), Xor_PORTB 0x08]
     @ entries_events (Suc i) ((g + unat (pitchDuration e)) mod 92) es"

text \<open>
  The events of one pass over a table whose entries before the sentinel are \<open>es\<close>.
\<close>

definition pass_events :: "pitchElement list \<Rightarrow> event list" where
  "pass_events es = [PgmRead_gumballPitch 0, PgmRead_pitchDuration 0] @ entries_events 0 0 es"

text \<open>
  The sum of the durations of the entries \<open>es\<close>.
\<close>

definition total_duration :: "pitchElement list \<Rightarrow> nat" where
  "total_duration es = sum_list (map (\<lambda>e. unat (pitchDuration e)) es)"

text \<open>
  The numbers of samples written between successive toggles of the blue LED:
  \<open>blue_runs 0 tr = [n\<^sub>0, n\<^sub>1, \<dots>, n\<^sub>k]\<close> says that the log \<open>tr\<close> has \<open>n\<^sub>0\<close> samples, a toggle,
  \<open>n\<^sub>1\<close> samples, a toggle, and so on, and \<open>n\<^sub>k\<close> samples after the last toggle.
\<close>

fun blue_runs :: "nat \<Rightarrow> event list \<Rightarrow> nat list" where
  "blue_runs n [] = [n]"
| "blue_runs n (e # es) =
     (if e = Xor_PORTB 0x08 then n # blue_runs 0 es
      else blue_runs (if sample_of e = None then n else Suc n) es)"

text \<open>
  The number of samples written in a log before its first read of a \<open>gumballPitch\<close>.
\<close>

definition samples_until_next_entry :: "event list \<Rightarrow> nat" where
  "samples_until_next_entry tr = length (samples (takeWhile (\<lambda>e. pitch_index_of e = None) tr))"

text \<open>
  For every read of the \<open>gumballPitch\<close> of an entry in a log, in order: the index of the
  entry, and the number of samples written after that read and before the read of the
  next entry (or the end of the log).
\<close>

fun entry_runs :: "event list \<Rightarrow> (u8 \<times> nat) list" where
  "entry_runs [] = []"
| "entry_runs (e # tr) =
     (case pitch_index_of e of
        None \<Rightarrow> entry_runs tr
      | Some i \<Rightarrow> (i, samples_until_next_entry tr) # entry_runs tr)"

section \<open>Properties of delaySomeTime\<close>

lemma B8_values:
  "B8 0x00100000 = 0x20" "B8 0x00001110 = 0x0E" "B8 0x11110001 = 0xF1"
  "B8 0x00000100 = 0x04" "B8 0x00000010 = 0x02" "B8 0x00001000 = 0x08"
  by (simp_all add: B8_def)

lemma ticks_0: "ticks 0 s = s"
  by (simp add: ticks_def)

lemma ticks_PINB_or: "ticks n (PINB_or (B8 0x00100000) s) = ticks (Suc n) s"
  by (simp add: ticks_def PINB_or_def replicate_append_same)

lemma ticks_ticks: "ticks n (ticks m s) = ticks (m + n) s"
  by (simp add: ticks_def replicate_add)

lemma word_succ_unat: "(x::'a::len word) \<noteq> - 1 \<Longrightarrow> unat (x + 1) = Suc (unat x)"
proof -
  assume "x \<noteq> - 1"
  then have "1 + x \<noteq> 0" by (metis add.commute add_eq_0_iff2)
  then have "unat (1 + x) = Suc (unat x)" by (rule unatSuc)
  then show ?thesis by (simp add: add.commute)
qed

lemma delay_for_returns:
  assumes d: "delayCount \<noteq> - 1"
  shows "unat timer \<le> unat delayCount + 1 \<Longrightarrow>
   delay_for timer delayCount s = Some (ticks (unat delayCount + 1 - unat timer) s)"
proof (induction "unat delayCount + 1 - unat timer" arbitrary: timer s)
  case 0
  then have "\<not> timer \<le> delayCount" by (simp add: word_le_nat_alt)
  with 0 show ?case by (simp add: delay_for.simps ticks_0)
next
  case (Suc n)
  then have le: "timer \<le> delayCount" by (simp add: word_le_nat_alt)
  then have "timer \<noteq> - 1" using d
    by (metis word_order.extremum_unique)
  then have u: "unat (timer + 1) = Suc (unat timer)" by (rule word_succ_unat)
  have "delay_for (timer + 1) delayCount (PINB_or (B8 0x00100000) s)
        = Some (ticks (unat delayCount + 1 - unat (timer + 1)) (PINB_or (B8 0x00100000) s))"
    using Suc u le by (intro Suc.hyps(1)) (simp_all add: word_le_nat_alt)
  also have "ticks (unat delayCount + 1 - unat (timer + 1)) (PINB_or (B8 0x00100000) s)
        = ticks (unat delayCount + 1 - unat timer) s"
    using Suc u le by (simp add: ticks_PINB_or word_le_nat_alt Suc_diff_le)
  finally show ?case using le by (subst delay_for.simps) simp
qed

lemma delay_for_diverges: "delay_for timer (- 1) s = None"
proof -
  have "d \<noteq> - 1" if "delay_for t d s = Some y" for t d :: u32 and s y :: "'a io_scheme"
  proof (rule delay_for.raw_induct [where P = "\<lambda>t d s y. d \<noteq> - 1", OF _ that])
    fix f and t d :: u32 and s y :: "'a io_scheme"
    assume "\<And>t d s y. f t d s = Some y \<Longrightarrow> d \<noteq> - 1"
      and "(if t \<le> d then f (t + 1) d (PINB_or (B8 0x00100000) s) else Some s) = Some y"
    then show "d \<noteq> - 1" using word_n1_ge [of t] by (auto split: if_splits)
  qed
  then show ?thesis by (cases "delay_for timer (- 1) s") auto
qed

lemma delaySomeTime_returns:
  assumes d: "delayCount \<noteq> - 1"
  shows "delaySomeTime units delayCount s = Some (ticks (unat units * (unat delayCount + 1)) s)"
proof (induction "unat units" arbitrary: units s)
  case 0
  then have "units = 0" by (simp add: unat_eq_0)
  then show ?case by (simp add: delaySomeTime.simps ticks_0)
next
  case (Suc n)
  then have nz: "units \<noteq> 0" by auto
  then have u: "unat (units - 1) = n" using Suc
    by (metis diff_Suc_1 unat_minus_one)
  have "delaySomeTime units delayCount s
        = delaySomeTime (units - 1) delayCount (ticks (unat delayCount + 1) s)"
    using nz by (subst delaySomeTime.simps) (simp add: delay_for_returns [OF d])
  also have "\<dots> = Some (ticks (unat (units - 1) * (unat delayCount + 1)) (ticks (unat delayCount + 1) s))"
    using u by (intro Suc.hyps(1)) simp
  finally show ?case using u Suc.hyps(2) [symmetric]
    by (simp add: ticks_ticks add.commute add.left_commute)
qed

lemma delaySomeTime_diverges: "units \<noteq> 0 \<Longrightarrow> delaySomeTime units (- 1) s = None"
  by (subst delaySomeTime.simps) (simp add: delay_for_diverges)

lemma max_u32: "(x :: u32) \<noteq> - 1 \<longleftrightarrow> unat x < 4294967295"
proof -
  have "unat (- 1 :: u32) = 4294967295" by (simp add: unsigned_minus_1_eq_mask mask_eq_exp_minus_1)
  moreover have "unat x \<le> unat (- 1 :: u32)" by (simp add: word_le_nat_alt [symmetric])
  ultimately show ?thesis by (metis nat_less_le word_unat_eq_iff)
qed

text \<open>
  C9. \<open>delaySomeTime\<close> returns for every \<open>units\<close> and every \<open>delayCount\<close> strictly below
  the largest \<open>unsigned long\<close> value (4294967295), and has then performed exactly
  \<open>units * (delayCount + 1)\<close> ticks of its inner loop and nothing else. When \<open>delayCount\<close>
  is the largest value, the condition \<open>timer <= delayCount\<close> holds for every \<open>timer\<close>,
  and a call with non-zero \<open>units\<close> never returns.
\<close>

theorem delaySomeTime_terminates_unless_max:
  "(unat delayCount < 4294967295 \<longrightarrow>
      delaySomeTime units delayCount s =
        Some (s\<lparr>trace := trace s @
                 replicate (unat units * (unat delayCount + 1)) (Or_PINB (B8 0x00100000))\<rparr>))
   \<and> (\<forall>timer :: u32. timer \<le> 0xFFFFFFFF)
   \<and> (units \<noteq> 0 \<longrightarrow> delaySomeTime units 0xFFFFFFFF s = None)"
proof -
  have m: "(0xFFFFFFFF :: u32) = - 1" by simp
  show ?thesis
    unfolding m using delaySomeTime_returns [of delayCount units s]
    by (simp add: max_u32 delaySomeTime_diverges ticks_def)
qed

theorem delaySomeTime_terminates_unless_max_witness:
  "delaySomeTime 3 2 \<lparr>PORTB = 0, OCR0A = 0, trace = []\<rparr> =
     Some \<lparr>PORTB = 0, OCR0A = 0, trace = replicate 9 (Or_PINB 0x20)\<rparr>
   \<and> delaySomeTime 1 0xFFFFFFFF \<lparr>PORTB = 0, OCR0A = 0, trace = []\<rparr> = None"
  using delaySomeTime_terminates_unless_max [of 2 3 "\<lparr>PORTB = 0, OCR0A = 0, trace = []\<rparr>"]
    delaySomeTime_terminates_unless_max [of 0 1 "\<lparr>PORTB = 0, OCR0A = 0, trace = []\<rparr>"]
  by (simp add: B8_values)

lemma delay_work_eq:
  "unat delayCount < 4294967295 \<Longrightarrow>
   delay_work units delayCount = Some (unat units * (unat delayCount + 1))"
  by (simp add: delay_work_def delaySomeTime_returns max_u32 ticks_def)

lemma delay_work_0: "delay_work 0 delayCount = Some 0"
  by (simp add: delay_work_def delaySomeTime.simps)

text \<open>
  C6, as stated, fails. The work of \<open>delaySomeTime\<close> is not a constant multiple of
  \<open>units * delayCount\<close>: the inner loop runs while \<open>timer <= delayCount\<close>, so
  \<open>delaySomeTime(1, 0)\<close> performs one tick although the product is 0.
\<close>

theorem delay_work_not_proportional_to_product:
  "\<not> (\<exists>c :: real. \<forall>units delayCount n.
        delay_work units delayCount = Some n \<longrightarrow> real n = c * real (unat units * unat delayCount))"
proof
  assume "\<exists>c :: real. \<forall>units delayCount n.
        delay_work units delayCount = Some n \<longrightarrow> real n = c * real (unat units * unat delayCount)"
  then obtain c :: real where c: "\<And>units delayCount n.
        delay_work units delayCount = Some n \<Longrightarrow> real n = c * real (unat units * unat delayCount)"
    by blast
  have "delay_work 1 0 = Some 1" using delay_work_eq [of 0 1] by simp
  from c [OF this] show False by simp
qed

text \<open>
  C6, amended. For \<open>delayCount\<close> below the largest \<open>unsigned long\<close> value, the total
  number of inner-loop ticks of \<open>delaySomeTime\<close> is exactly \<open>units * (delayCount + 1)\<close>:
  it is the product of the repetition count and of the tick count plus one.
\<close>

theorem delay_work_product:
  "unat delayCount < 4294967295 \<Longrightarrow>
   delay_work units delayCount = Some (unat units * (unat delayCount + 1))"
proof -
  assume "unat delayCount < 4294967295"
  then have "delayCount \<noteq> - 1" by (simp add: max_u32)
  then have "delaySomeTime units delayCount \<lparr>PORTB = 0, OCR0A = 0, trace = []\<rparr>
      = Some (ticks (unat units * (unat delayCount + 1)) \<lparr>PORTB = 0, OCR0A = 0, trace = []\<rparr>)"
    by (rule delaySomeTime_returns)
  then show ?thesis by (simp add: delay_work_def ticks_def)
qed

theorem delay_work_product_witness:
  "delay_work 3 2 = Some 9 \<and> delay_work 1 0 = Some 1"
  using delay_work_product [of 2 3] delay_work_product [of 0 1] by simp

text \<open>
  C7, as stated, fails. With a unit count of zero the work is zero whatever the tick
  count is, so it does not strictly increase from \<open>delayCount = 1\<close> to \<open>delayCount = 2\<close>.
\<close>

theorem delay_work_not_strict_at_zero_units:
  "\<not> (\<exists>m n. delay_work 0 1 = Some m \<and> delay_work 0 2 = Some n \<and> m < n)"
  by (simp add: delay_work_0)

text \<open>
  C7, amended. The work of \<open>delaySomeTime\<close> is zero when the unit count is zero. For tick
  counts below the largest \<open>unsigned long\<close> value it is monotone in both arguments,
  strictly increasing in the unit count, and strictly increasing in the tick count when
  the unit count is not zero.
\<close>

theorem delay_work_monotone:
  "delay_work 0 delayCount = Some 0
   \<and> (unat delayCount' < 4294967295 \<longrightarrow> units \<le> units' \<longrightarrow> delayCount \<le> delayCount' \<longrightarrow>
        (\<exists>m n. delay_work units delayCount = Some m \<and> delay_work units' delayCount' = Some n \<and> m \<le> n))
   \<and> (unat delayCount < 4294967295 \<longrightarrow> units < units' \<longrightarrow>
        (\<exists>m n. delay_work units delayCount = Some m \<and> delay_work units' delayCount = Some n \<and> m < n))
   \<and> (unat delayCount' < 4294967295 \<longrightarrow> units \<noteq> 0 \<longrightarrow> delayCount < delayCount' \<longrightarrow>
        (\<exists>m n. delay_work units delayCount = Some m \<and> delay_work units delayCount' = Some n \<and> m < n))"
proof (intro conjI impI)
  show "delay_work 0 delayCount = Some 0" by (rule delay_work_0)
next
  assume a: "unat delayCount' < 4294967295" "units \<le> units'" "delayCount \<le> delayCount'"
  then have "unat delayCount < 4294967295" "unat units \<le> unat units'" "unat delayCount \<le> unat delayCount'"
    by (simp_all add: word_le_nat_alt)
  with a show "\<exists>m n. delay_work units delayCount = Some m \<and> delay_work units' delayCount' = Some n \<and> m \<le> n"
    by (simp add: delay_work_eq add_mono mult_le_mono)
next
  assume a: "unat delayCount < 4294967295" "units < units'"
  then have "unat units < unat units'" by (simp add: word_less_nat_alt)
  then have "unat units * (unat delayCount + 1) < unat units' * (unat delayCount + 1)"
    by (intro mult_strict_right_mono) simp_all
  with a show "\<exists>m n. delay_work units delayCount = Some m \<and> delay_work units' delayCount = Some n \<and> m < n"
    by (simp only: delay_work_eq) blast
next
  assume a: "unat delayCount' < 4294967295" "units \<noteq> 0" "delayCount < delayCount'"
  then have "unat delayCount < 4294967295" "unat delayCount < unat delayCount'" "0 < unat units"
    by (simp_all add: word_less_nat_alt unat_gt_0)
  then have "unat delayCount < 4294967295"
    and "unat units * (unat delayCount + 1) < unat units * (unat delayCount' + 1)"
    by simp_all
  with a show "\<exists>m n. delay_work units delayCount = Some m \<and> delay_work units delayCount' = Some n \<and> m < n"
    by (simp only: delay_work_eq) blast
qed

theorem delay_work_monotone_witness:
  "delay_work 0 5 = Some 0
   \<and> (\<exists>m n. delay_work 2 3 = Some m \<and> delay_work 4 7 = Some n \<and> m \<le> n)
   \<and> (\<exists>m n. delay_work 2 3 = Some m \<and> delay_work 4 3 = Some n \<and> m < n)
   \<and> (\<exists>m n. delay_work 2 3 = Some m \<and> delay_work 2 7 = Some n \<and> m < n)"
  using delay_work_monotone [where delayCount = 5]
    delay_work_monotone [where delayCount = 3 and delayCount' = 7 and units = 2 and units' = 4]
  by simp

section \<open>Properties of blink_LEDs\<close>

lemma delay_TENTH_MS:
  "delaySomeTime units TENTH_MS s = Some (ticks (unat units * 113) s)"
  using delaySomeTime_returns [of TENTH_MS units s] by (simp add: TENTH_MS_def)

lemma blink_for_no_division_by_zero:
  assumes "blink_for i duration onTime offTime s = Some y"
  shows "y = Inl DivisionByZero \<longrightarrow> onTime + offTime = 0"
proof (rule blink_for.raw_induct
    [where P = "\<lambda>i duration onTime offTime s y. y = Inl DivisionByZero \<longrightarrow> onTime + offTime = 0",
      OF _ assms])
  fix f and i :: "16 word" and duration onTime offTime :: u32 and s :: "'a io_scheme" and y
  assume "\<And>i duration onTime offTime s y.
      f i duration onTime offTime s = Some y \<Longrightarrow> y = Inl DivisionByZero \<longrightarrow> onTime + offTime = 0"
    and "(if onTime + offTime = 0 then Some (Inl DivisionByZero)
      else if scast i < duration div (onTime + offTime) then
        Option.bind (delaySomeTime onTime TENTH_MS (PORTB_or (B8 0x00001110) s)) (\<lambda>s1.
        Option.bind (delaySomeTime offTime TENTH_MS (PORTB_and (B8 0x11110001) s1)) (\<lambda>s2.
          if i = 0x7FFF then Some (Inl IntOverflow)
          else f (i + 1) duration onTime offTime s2))
      else Some (Inr s)) = Some y"
  then show "y = Inl DivisionByZero \<longrightarrow> onTime + offTime = 0"
    by (auto split: if_splits simp: bind_eq_Some_conv)
qed

lemma scast_small: "unat (i :: 16 word) < 32768 \<Longrightarrow> unat (scast i :: u32) = unat i"
proof -
  assume "unat i < 32768"
  then have "int (unat i) < int 32768" by (simp only: of_nat_less_iff)
  then have a: "uint i < 2 ^ 15" by simp
  have b: "- (2 ^ 15) \<le> uint i"
    by (rule order_trans [of _ 0]) simp_all
  have "sint i = uint i"
    using a b by (simp add: sint_uint signed_take_bit_int_eq_self)
  then have "uint (scast i :: u32) = take_bit 32 (uint i)"
    by (simp add: scast_eq uint_word_of_int_eq unsigned_ucast_eq)
  also have "\<dots> = uint i"
    using a by (intro take_bit_int_eq_self) simp_all
  finally have "nat (uint (scast i :: u32)) = nat (uint i)" by simp
  then show ?thesis by (simp only: unat_eq_nat_uint)
qed

lemma blink_for_returns:
  assumes nz: "onTime + offTime \<noteq> 0"
    and n: "unat (duration div (onTime + offTime)) \<le> 32767"
  shows "unat i \<le> unat (duration div (onTime + offTime)) \<Longrightarrow>
    blink_for i duration onTime offTime s =
      Some (Inr ((blink_period onTime offTime ^^ (unat (duration div (onTime + offTime)) - unat i)) s))"
proof (induction "unat (duration div (onTime + offTime)) - unat i" arbitrary: i s)
  case 0
  then have "unat i < 32768" using n by simp
  then have "unat (scast i :: u32) = unat i" by (rule scast_small)
  with 0 have "\<not> scast i < duration div (onTime + offTime)" by (simp add: word_less_nat_alt)
  with 0 nz show ?case by (subst blink_for.simps) simp
next
  case (Suc k)
  then have lt: "unat i < unat (duration div (onTime + offTime))" by simp
  then have small: "unat i < 32767" using n by simp
  then have "unat (scast i :: u32) = unat i" by (intro scast_small) simp
  with lt have c: "scast i < duration div (onTime + offTime)" by (simp add: word_less_nat_alt)
  from small have ne: "i \<noteq> 0x7FFF" by auto
  from small have "i \<noteq> - 1" by (auto simp: unsigned_minus_1_eq_mask mask_eq_exp_minus_1)
  then have u: "unat (i + 1) = Suc (unat i)" by (rule word_succ_unat)
  have "blink_for i duration onTime offTime s
        = blink_for (i + 1) duration onTime offTime (blink_period onTime offTime s)"
    using nz c ne
    by (subst blink_for.simps) (simp add: delay_TENTH_MS blink_period_def B8_values)
  also have "\<dots> = Some (Inr ((blink_period onTime offTime ^^ (unat (duration div (onTime + offTime)) - unat (i + 1)))
                        (blink_period onTime offTime s)))"
    using Suc u lt by (intro Suc.hyps(1)) simp_all
  also have "(blink_period onTime offTime ^^ (unat (duration div (onTime + offTime)) - unat (i + 1)))
                        (blink_period onTime offTime s)
     = (blink_period onTime offTime ^^ (unat (duration div (onTime + offTime)) - unat i)) s"
  proof -
    have "unat (duration div (onTime + offTime)) - unat (i + 1) = k"
      and "unat (duration div (onTime + offTime)) - unat i = Suc k"
      using u Suc.hyps(2) by simp_all
    then show ?thesis by (simp add: funpow_swap1)
  qed
  finally show ?case .
qed


lemma trace_blink_period:
  "trace (blink_period onTime offTime s) =
     trace s @ [Or_PORTB 0x0E] @ replicate (unat onTime * 113) (Or_PINB 0x20)
       @ [And_PORTB 0xF1] @ replicate (unat offTime * 113) (Or_PINB 0x20)"
  by (simp add: blink_period_def ticks_def PORTB_or_def PORTB_and_def B8_values)

lemma trace_blink_periods:
  "trace ((blink_period onTime offTime ^^ n) s) =
     trace s @ concat (replicate n ([Or_PORTB 0x0E] @ replicate (unat onTime * 113) (Or_PINB 0x20)
       @ [And_PORTB 0xF1] @ replicate (unat offTime * 113) (Or_PINB 0x20)))"
  by (induction n arbitrary: s) (simp_all add: funpow_swap1 trace_blink_period del: append.simps)

lemma led_mask: "((x :: u8) OR 0x0E) AND 0xF1 = x AND 0xF1"
proof -
  have "(0x0E :: u8) AND 0xF1 = 0" by simp
  then show ?thesis by (simp add: bit.conj_disj_distrib2)
qed

lemma PORTB_blink_period: "PORTB (blink_period onTime offTime s) = PORTB s AND 0xF1"
  by (simp add: blink_period_def ticks_def PORTB_or_def PORTB_and_def led_mask)

lemma PORTB_blink_periods:
  "PORTB ((blink_period onTime offTime ^^ n) s) = (if n = 0 then PORTB s else PORTB s AND 0xF1)"
  by (induction n) (simp_all add: PORTB_blink_period)

lemma blink_for_overflows:
  assumes nz: "onTime + offTime \<noteq> 0"
    and n: "32767 < unat (duration div (onTime + offTime))"
  shows "unat i \<le> 32767 \<Longrightarrow>
    blink_for i duration onTime offTime s = Some (Inl IntOverflow)"
proof (induction "32767 - unat i" arbitrary: i s)
  case 0
  then have "unat i = unat (0x7FFF :: 16 word)" by simp
  then have i: "i = 0x7FFF" by (simp only: word_unat_eq_iff)
  have "unat (scast i :: u32) = unat i" using 0 by (intro scast_small) simp
  with n 0 have c: "scast i < duration div (onTime + offTime)" by (simp add: word_less_nat_alt)
  show ?case
    using nz c i by (subst blink_for.simps) (simp add: delay_TENTH_MS)
next
  case (Suc k)
  then have small: "unat i < 32767" by simp
  then have "unat (scast i :: u32) = unat i" by (intro scast_small) simp
  with n small have c: "scast i < duration div (onTime + offTime)" by (simp add: word_less_nat_alt)
  from small have ne: "i \<noteq> 0x7FFF" by auto
  from small have "i \<noteq> - 1" by (auto simp: unsigned_minus_1_eq_mask mask_eq_exp_minus_1)
  then have u: "unat (i + 1) = Suc (unat i)" by (rule word_succ_unat)
  have "blink_for i duration onTime offTime s
        = blink_for (i + 1) duration onTime offTime (blink_period onTime offTime s)"
    using nz c ne
    by (subst blink_for.simps) (simp add: delay_TENTH_MS blink_period_def B8_values)
  also have "\<dots> = Some (Inl IntOverflow)"
    using Suc u small by (intro Suc.hyps(1)) simp_all
  finally show ?case .
qed

text \<open>
  C8, as stated for every \<open>duration\<close>, \<open>onTime\<close> and \<open>offTime\<close>, fails. With
  \<open>onTime = offTime = 0\<close> the loop condition divides by zero and no period is played;
  with 40000 periods requested the 16-bit \<open>int i\<close> overflows after 32768 iterations.
\<close>

theorem blink_LEDs_faults:
  "blink_LEDs 10 0 0 \<lparr>PORTB = 0, OCR0A = 0, trace = []\<rparr> = Some (Inl DivisionByZero)
   \<and> blink_LEDs 40000 1 0 \<lparr>PORTB = 0, OCR0A = 0, trace = []\<rparr> = Some (Inl IntOverflow)"
proof -
  have "unat ((40000 :: u32) div (1 + 0)) = 40000" by simp
  then show ?thesis
    using blink_for_overflows [of 1 0 40000 0 "\<lparr>PORTB = 0, OCR0A = 0, trace = []\<rparr>"]
    by (simp add: blink_LEDs_def blink_for.simps [of _ _ 0 0])
qed

text \<open>
  C8, amended. Whenever the 32-bit sum \<open>onTime + offTime\<close> is not zero and
  \<open>duration / (onTime + offTime)\<close> is at most 32767, \<open>blink_LEDs\<close> returns after exactly
  \<open>duration / (onTime + offTime)\<close> whole periods and nothing else: each period sets the
  three LED bits (\<open>PORTB |= 0x0E\<close>), delays \<open>onTime\<close> units of \<open>TENTH_MS + 1\<close> ticks,
  clears the three bits (\<open>PORTB &= 0xF1\<close>) and delays \<open>offTime\<close> units. The division
  truncates, so a remainder shorter than a period is not played; when the sum does not
  wrap around, the quotient is the floor of \<open>duration / (onTime + offTime)\<close>.
\<close>

theorem blink_LEDs_whole_periods:
  assumes "onTime + offTime \<noteq> 0"
    and "unat (duration div (onTime + offTime)) \<le> 32767"
  shows "\<exists>s'. blink_LEDs duration onTime offTime s = Some (Inr s')
     \<and> trace s' = trace s @ concat (replicate (unat (duration div (onTime + offTime)))
          ([Or_PORTB 0x0E] @ replicate (unat onTime * 113) (Or_PINB 0x20)
           @ [And_PORTB 0xF1] @ replicate (unat offTime * 113) (Or_PINB 0x20)))
     \<and> PORTB s' = (if duration div (onTime + offTime) = 0 then PORTB s else PORTB s AND 0xF1)
     \<and> (unat onTime + unat offTime < 4294967296 \<longrightarrow>
          unat (duration div (onTime + offTime)) = unat duration div (unat onTime + unat offTime))"
proof -
  have "unat onTime + unat offTime < 4294967296 \<longrightarrow>
          unat (duration div (onTime + offTime)) = unat duration div (unat onTime + unat offTime)"
    by (simp add: unat_div unat_add_lem [THEN iffD1])
  then show ?thesis
    using blink_for_returns [OF assms, of 0 s]
    by (simp add: blink_LEDs_def trace_blink_periods PORTB_blink_periods unat_eq_0)
qed

theorem blink_LEDs_whole_periods_witness:
  "\<exists>s'. blink_LEDs 10 3 1 \<lparr>PORTB = 0x21, OCR0A = 0, trace = []\<rparr> = Some (Inr s')
     \<and> trace s' = concat (replicate 2
          ([Or_PORTB 0x0E] @ replicate 339 (Or_PINB 0x20) @ [And_PORTB 0xF1] @ replicate 113 (Or_PINB 0x20)))
     \<and> PORTB s' = 0x21"
  using blink_LEDs_whole_periods [of 3 1 10 "\<lparr>PORTB = 0x21, OCR0A = 0, trace = []\<rparr>"]
  by simp

text \<open>
  C10. \<open>blink_LEDs\<close> divides by \<open>onTime + offTime\<close> without a guard: the call stops in
  a division by zero exactly when the (32-bit) sum \<open>onTime + offTime\<close> is zero. Under
  the precondition \<open>onTime + offTime \<noteq> 0\<close> the division-by-zero branch is not reached,
  and a call with \<open>onTime = 0\<close> and \<open>offTime = 0\<close> reaches it.
\<close>

theorem blink_LEDs_division_by_zero:
  "(blink_LEDs duration onTime offTime s = Some (Inl DivisionByZero)) = (onTime + offTime = 0)
   \<and> blink_LEDs duration 0 0 s = Some (Inl DivisionByZero)"
proof -
  have "onTime + offTime = 0 \<Longrightarrow> blink_for 0 duration onTime offTime s = Some (Inl DivisionByZero)"
    for onTime offTime
    by (subst blink_for.simps) simp
  then show ?thesis
    using blink_for_no_division_by_zero [of 0 duration onTime offTime s "Inl DivisionByZero"]
    by (auto simp: blink_LEDs_def)
qed

theorem blink_LEDs_division_by_zero_witness:
  "blink_LEDs 10 3 1 \<lparr>PORTB = 0, OCR0A = 0, trace = []\<rparr> \<noteq> Some (Inl DivisionByZero)
   \<and> blink_LEDs 10 1 0xFFFFFFFF \<lparr>PORTB = 0, OCR0A = 0, trace = []\<rparr> = Some (Inl DivisionByZero)"
  using blink_LEDs_division_by_zero [where duration = 10 and onTime = 3 and offTime = 1
      and s = "\<lparr>PORTB = 0, OCR0A = 0, trace = []\<rparr>"]
    blink_LEDs_division_by_zero [where duration = 10 and onTime = 1 and offTime = "0xFFFFFFFF"
      and s = "\<lparr>PORTB = 0, OCR0A = 0, trace = []\<rparr>"]
  by simp

section \<open>Properties of the playback sequencer\<close>

lemma length_gumballWavTab: "length gumballWavTab = 92"
  by (simp add: gumballWavTab_def)

lemma unat_ucast_u8_u32: "unat (ucast (x :: u8) :: u32) = unat x"
proof -
  have "unat x < 2 ^ 8" using unsigned_less [of x] by simp
  then have "unat x < 2 ^ 32" by simp
  then show ?thesis by (simp add: unsigned_ucast_eq take_bit_nat_eq_self)
qed

lemma delay_SAMP:
  "delaySomeTime (ucast (r :: u8)) SAMP s = Some (ticks (unat r * 11) s)"
  using delaySomeTime_returns [of SAMP "ucast r" s] by (simp add: SAMP_def unat_ucast_u8_u32)

lemma u8_mod_eq_0_iff:
  "unat (m :: u8) = k \<Longrightarrow> (r mod m = 0) = (k dvd unat r)"
  by (auto simp: unat_eq_0 [symmetric] unat_mod dvd_eq_mod_eq_0 simp del: unat_eq_0)

lemma gumIndex_wraps:
  assumes "unat (g :: u8) < 92"
  shows "(gumballWavTabSize \<le> g + 1) = (unat g = 91)" "unat g \<noteq> 91 \<Longrightarrow> unat (g + 1) = Suc (unat g)"
proof -
  from assms have "g \<noteq> - 1" by (auto simp: unsigned_minus_1_eq_mask mask_eq_exp_minus_1)
  then have u: "unat (g + 1) = Suc (unat g)" by (rule word_succ_unat)
  then show "unat g \<noteq> 91 \<Longrightarrow> unat (g + 1) = Suc (unat g)" by simp
  show "(gumballWavTabSize \<le> g + 1) = (unat g = 91)"
    using assms u by (auto simp: gumballWavTabSize_def word_le_nat_alt)
qed

lemma play_sample_result:
  assumes g: "unat (gumIndex s) < 92"
  shows "\<exists>s'. play_sample s = Some (Inr s')
    \<and> trace s' = trace s @ sample_events (pitchRate s) (unat (gumIndex s))
    \<and> unat (gumIndex s') = Suc (unat (gumIndex s)) mod 92
    \<and> pitchIndex s' = pitchIndex s \<and> pitchRate s' = pitchRate s \<and> pitchLen s' = pitchLen s
    \<and> OCR0A s' = gumballWavTab ! unat (gumIndex s)
    \<and> PORTB s' = (if unat (gumIndex s) = 91
         then PORTB s XOR (if 50 dvd unat (pitchRate s) \<or> 20 dvd unat (pitchRate s) then 0x04 else 0)
                      XOR (if 40 dvd unat (pitchRate s) \<or> 10 dvd unat (pitchRate s) then 0x02 else 0)
         else PORTB s)"
proof (cases "unat (gumIndex s) = 91")
  case True
  then have "unat (gumIndex s) = unat (91 :: u8)" by simp
  then have "gumIndex s = 91" by (simp only: word_unat_eq_iff)
  with True show ?thesis
    using g gumIndex_wraps(1) [OF g]
    by (simp add: play_sample_def read_gumballWavTab_def length_gumballWavTab delay_SAMP
        ticks_def OCR0A_set_def PORTB_xor_def B8_values sample_events_def wrap_events_def
        u8_mod_eq_0_iff Let_def xor.assoc)
next
  case False
  with g have "Suc (unat (gumIndex s)) mod 92 = Suc (unat (gumIndex s))" by simp
  with False show ?thesis
    using g gumIndex_wraps [OF g]
    by (simp add: play_sample_def read_gumballWavTab_def length_gumballWavTab delay_SAMP
        ticks_def OCR0A_set_def B8_values sample_events_def Let_def)
qed

lemma unat_ucast_u16_u32: "unat (ucast (x :: u16) :: u32) = unat x"
proof -
  have "unat x < 2 ^ 16" using unsigned_less [of x] by simp
  then have "unat x < 2 ^ 32" by simp
  then show ?thesis by (simp add: unsigned_ucast_eq take_bit_nat_eq_self)
qed

lemma blue_bit_kept:
  "((p :: u8) XOR (if a then 0x04 else 0) XOR (if b then 0x02 else 0)) AND 0x08 = p AND 0x08"
  by (simp add: bit.conj_xor_distrib2)

lemma play_sample_blue:
  assumes "unat (gumIndex s) < 92" and "play_sample s = Some (Inr s')"
  shows "PORTB s' AND 0x08 = PORTB s AND 0x08"
  using play_sample_result [OF assms(1)] assms(2) by (auto simp: blue_bit_kept)

lemma for_events_0: "for_events r g 0 = []"
  by (simp add: for_events_def)

lemma for_events_Suc:
  "for_events r g (Suc n) = sample_events r (g mod 92) @ for_events r (Suc g mod 92) n"
proof -
  have "map (\<lambda>m. sample_events r ((g + m) mod 92)) [0..<Suc n]
        = sample_events r (g mod 92) # map (\<lambda>m. sample_events r ((g + Suc m) mod 92)) [0..<n]"
    by (simp only: map_upt_Suc) simp
  moreover have "(Suc g mod 92 + m) mod 92 = (g + Suc m) mod 92" for m
    by (metis add_Suc add_Suc_right mod_add_left_eq)
  ultimately show ?thesis by (simp add: for_events_def)
qed

lemma play_for_result:
  "unat (gumIndex s) < 92 \<Longrightarrow> unat j \<le> unat (pitchLen s) \<Longrightarrow>
   \<exists>s'. play_for j s = Some (Inr s')
    \<and> trace s' = trace s @ for_events (pitchRate s) (unat (gumIndex s)) (unat (pitchLen s) - unat j)
    \<and> unat (gumIndex s') = (unat (gumIndex s) + (unat (pitchLen s) - unat j)) mod 92
    \<and> pitchIndex s' = pitchIndex s \<and> pitchRate s' = pitchRate s \<and> pitchLen s' = pitchLen s
    \<and> PORTB s' AND 0x08 = PORTB s AND 0x08"
proof (induction "unat (pitchLen s) - unat j" arbitrary: j s)
  case 0
  then have "\<not> j < ucast (pitchLen s)"
    by (simp add: word_less_nat_alt unat_ucast_u16_u32)
  with 0 show ?case by (subst play_for.simps) (simp add: for_events_0)
next
  case (Suc n)
  then have lt: "unat j < unat (pitchLen s)" by simp
  then have c: "j < ucast (pitchLen s)" by (simp add: word_less_nat_alt unat_ucast_u16_u32)
  have "unat (pitchLen s) < 2 ^ 16" using unsigned_less [of "pitchLen s"] by simp
  with lt have "j \<noteq> - 1" by (auto simp: unsigned_minus_1_eq_mask mask_eq_exp_minus_1)
  then have u: "unat (j + 1) = Suc (unat j)" by (rule word_succ_unat)
  from play_sample_result [OF Suc.prems(1)] obtain s1 where s1: "play_sample s = Some (Inr s1)"
    "trace s1 = trace s @ sample_events (pitchRate s) (unat (gumIndex s))"
    "unat (gumIndex s1) = Suc (unat (gumIndex s)) mod 92"
    "pitchIndex s1 = pitchIndex s" "pitchRate s1 = pitchRate s" "pitchLen s1 = pitchLen s"
    by blast
  have b1: "PORTB s1 AND 0x08 = PORTB s AND 0x08"
    using Suc.prems(1) s1(1) by (rule play_sample_blue)
  have n: "unat (pitchLen s1) - unat (j + 1) = n" using Suc.hyps(2) u s1(6) by simp
  have "\<exists>s'. play_for (j + 1) s1 = Some (Inr s')
    \<and> trace s' = trace s1 @ for_events (pitchRate s1) (unat (gumIndex s1)) (unat (pitchLen s1) - unat (j + 1))
    \<and> unat (gumIndex s') = (unat (gumIndex s1) + (unat (pitchLen s1) - unat (j + 1))) mod 92
    \<and> pitchIndex s' = pitchIndex s1 \<and> pitchRate s' = pitchRate s1 \<and> pitchLen s' = pitchLen s1
    \<and> PORTB s' AND 0x08 = PORTB s1 AND 0x08"
    using n s1 u lt by (intro Suc.hyps(1)) simp_all
  then obtain s' where s': "play_for (j + 1) s1 = Some (Inr s')"
    "trace s' = trace s1 @ for_events (pitchRate s1) (unat (gumIndex s1)) n"
    "unat (gumIndex s') = (unat (gumIndex s1) + n) mod 92"
    "pitchIndex s' = pitchIndex s1" "pitchRate s' = pitchRate s1" "pitchLen s' = pitchLen s1"
    "PORTB s' AND 0x08 = PORTB s1 AND 0x08"
    unfolding n by blast
  have m: "unat (pitchLen s) - unat j = Suc n" using Suc.hyps(2) by simp
  have g: "unat (gumIndex s) mod 92 = unat (gumIndex s)" using Suc.prems(1) by simp
  have "play_for j s = play_for (j + 1) s1"
    using c s1(1) by (subst play_for.simps) simp
  moreover have "trace s' = trace s @ for_events (pitchRate s) (unat (gumIndex s)) (Suc n)"
    using s'(2) s1 g by (simp add: for_events_Suc)
  moreover have "unat (gumIndex s') = (unat (gumIndex s) + Suc n) mod 92"
    using s'(3) s1(3) by (simp add: mod_add_left_eq) 
  ultimately show ?case
    unfolding m using s' s1 b1 by simp
qed

lemma next_pitch_result:
  assumes "Suc (unat (pitchIndex s)) < length tab" and "Suc (unat (pitchIndex s)) < 256"
  shows "\<exists>s'. next_pitch tab s = Inr s'
    \<and> trace s' = trace s @ [PgmRead_gumballPitch (pitchIndex s + 1),
                            PgmRead_pitchDuration (pitchIndex s + 1), Xor_PORTB 0x08]
    \<and> unat (pitchIndex s') = Suc (unat (pitchIndex s))
    \<and> pitchRate s' = gumballPitch (tab ! Suc (unat (pitchIndex s)))
    \<and> pitchLen s' = pitchDuration (tab ! Suc (unat (pitchIndex s)))
    \<and> gumIndex s' = gumIndex s
    \<and> PORTB s' = PORTB s XOR 0x08"
proof -
  from assms(2) have "pitchIndex s \<noteq> - 1"
    by (auto simp: unsigned_minus_1_eq_mask mask_eq_exp_minus_1)
  then have "unat (pitchIndex s + 1) = Suc (unat (pitchIndex s))" by (rule word_succ_unat)
  with assms show ?thesis
    by (simp add: next_pitch_def read_pitchTab_def PORTB_xor_def B8_values)
qed

lemma pitch_while_result:
  "tab = pre @ es @ z # rest \<Longrightarrow> \<forall>e\<in>set es. gumballPitch e \<noteq> 0 \<Longrightarrow> gumballPitch z = 0 \<Longrightarrow>
   length pre + length es < 256 \<Longrightarrow> unat (pitchIndex s) = length pre \<Longrightarrow>
   pitchRate s = gumballPitch (tab ! length pre) \<Longrightarrow>
   pitchLen s = pitchDuration (tab ! length pre) \<Longrightarrow> unat (gumIndex s) < 92 \<Longrightarrow>
   \<exists>s'. pitch_while tab s = Some (Inr s')
     \<and> trace s' = trace s @ entries_events (length pre) (unat (gumIndex s)) es
     \<and> unat (pitchIndex s') = length pre + length es
     \<and> pitchRate s' = 0
     \<and> unat (gumIndex s') = (unat (gumIndex s) + total_duration es) mod 92"
proof (induction es arbitrary: pre s)
  case Nil
  then have "pitchRate s = 0" by simp
  with Nil show ?case by (subst pitch_while.simps) (simp add: total_duration_def)
next
  case (Cons e es)
  have e: "tab ! length pre = e" using Cons.prems(1) by simp
  then have nz: "pitchRate s \<noteq> 0" using Cons.prems by simp
  from play_for_result [of s 0] Cons.prems(8) obtain s1 where s1:
    "play_for 0 s = Some (Inr s1)"
    "trace s1 = trace s @ for_events (pitchRate s) (unat (gumIndex s)) (unat (pitchLen s))"
    "unat (gumIndex s1) = (unat (gumIndex s) + unat (pitchLen s)) mod 92"
    "pitchIndex s1 = pitchIndex s"
    by auto
  have "Suc (unat (pitchIndex s1)) < length tab" "Suc (unat (pitchIndex s1)) < 256"
    using Cons.prems s1(4) by simp_all
  from next_pitch_result [OF this] obtain s2 where s2:
    "next_pitch tab s1 = Inr s2"
    "trace s2 = trace s1 @ [PgmRead_gumballPitch (pitchIndex s1 + 1),
                            PgmRead_pitchDuration (pitchIndex s1 + 1), Xor_PORTB 0x08]"
    "unat (pitchIndex s2) = Suc (unat (pitchIndex s1))"
    "pitchRate s2 = gumballPitch (tab ! Suc (unat (pitchIndex s1)))"
    "pitchLen s2 = pitchDuration (tab ! Suc (unat (pitchIndex s1)))"
    "gumIndex s2 = gumIndex s1"
    by blast
  have idx: "pitchIndex s1 + 1 = of_nat (Suc (length pre))"
  proof -
    have "pitchIndex s1 \<noteq> - 1"
      using \<open>Suc (unat (pitchIndex s1)) < 256\<close>
      by (auto simp: unsigned_minus_1_eq_mask mask_eq_exp_minus_1)
    then have "unat (pitchIndex s1 + 1) = Suc (unat (pitchIndex s1))" by (rule word_succ_unat)
    then have "unat (pitchIndex s1 + 1) = Suc (length pre)"
      using s1(4) Cons.prems(5) by simp
    then have "of_nat (unat (pitchIndex s1 + 1)) = (of_nat (Suc (length pre)) :: u8)" by simp
    then show ?thesis by simp
  qed
  have "\<exists>s'. pitch_while tab s2 = Some (Inr s')
     \<and> trace s' = trace s2 @ entries_events (length (pre @ [e])) (unat (gumIndex s2)) es
     \<and> unat (pitchIndex s') = length (pre @ [e]) + length es
     \<and> pitchRate s' = 0
     \<and> unat (gumIndex s') = (unat (gumIndex s2) + total_duration es) mod 92"
    using Cons.prems s1 s2 by (intro Cons.IH [of "pre @ [e]" s2]) simp_all
  then obtain s' where s': "pitch_while tab s2 = Some (Inr s')"
     "trace s' = trace s2 @ entries_events (Suc (length pre)) (unat (gumIndex s2)) es"
     "unat (pitchIndex s') = Suc (length pre) + length es"
     "pitchRate s' = 0"
     "unat (gumIndex s') = (unat (gumIndex s2) + total_duration es) mod 92"
    by auto
  have "pitch_while tab s = pitch_while tab s2"
    using nz s1(1) s2(1) by (subst pitch_while.simps) simp
  moreover have "trace s' = trace s @ entries_events (length pre) (unat (gumIndex s)) (e # es)"
    using s'(2) s2(2,6) s1(2,3) idx e Cons.prems(6,7) by simp
  moreover have "unat (gumIndex s') = (unat (gumIndex s) + total_duration (e # es)) mod 92"
    using s'(5) s2(6) s1(3) e Cons.prems(7)
    by (simp add: total_duration_def mod_add_left_eq add.assoc)
  ultimately show ?case using s' by simp
qed

lemma pass_result:
  assumes "tab = es @ z # rest" "\<forall>e\<in>set es. gumballPitch e \<noteq> 0" "gumballPitch z = 0"
    "length es < 256"
  shows "\<exists>s'. pass tab s = Some (Inr s')
     \<and> trace s' = trace s @ pass_events es
     \<and> unat (pitchIndex s') = length es
     \<and> pitchRate s' = 0
     \<and> unat (gumIndex s') = total_duration es mod 92"
proof -
  let ?s1 = "s\<lparr>gumIndex := 0, pitchIndex := 0,
              pitchRate := gumballPitch (tab ! 0), pitchLen := pitchDuration (tab ! 0),
              trace := trace s @ [PgmRead_gumballPitch 0, PgmRead_pitchDuration 0]\<rparr>"
  have r: "read_pitchTab tab (s\<lparr>gumIndex := 0, pitchIndex := 0\<rparr>) = Inr ?s1"
    using assms(1) by (simp add: read_pitchTab_def)
  have "\<exists>s'. pitch_while tab ?s1 = Some (Inr s')
     \<and> trace s' = trace ?s1 @ entries_events (length ([] :: pitchElement list)) (unat (gumIndex ?s1)) es
     \<and> unat (pitchIndex s') = length ([] :: pitchElement list) + length es
     \<and> pitchRate s' = 0
     \<and> unat (gumIndex s') = (unat (gumIndex ?s1) + total_duration es) mod 92"
    using assms by (intro pitch_while_result [of tab "[]" es z rest]) simp_all
  then show ?thesis
    using r by (simp add: pass_def pass_events_def)
qed

lemma map_filter_append:
  "List.map_filter f (xs @ ys) = List.map_filter f xs @ List.map_filter f ys"
  by (simp add: List.map_filter_def)

lemma map_filter_replicate_None:
  "f x = None \<Longrightarrow> List.map_filter f (replicate n x) = []"
  by (induction n) (simp_all add: List.map_filter_simps)

lemma map_filter_concat:
  "List.map_filter f (concat xss) = concat (map (List.map_filter f) xss)"
  by (induction xss) (simp_all add: map_filter_append List.map_filter_simps)

lemma map_upt_add:
  "map h [0..<a + b] = map h [0..<a] @ map (\<lambda>m. h (a + m)) [0..<b]"
proof -
  have "map (\<lambda>m. a + m) [0..<b] = [a..<a + b]"
    using map_add_upt [of a b] by (simp add: add.commute)
  then have "[0..<a + b] = [0..<a] @ map (\<lambda>m. a + m) [0..<b]"
    using upt_add_eq_append [of 0 a b] by simp
  then show ?thesis by (simp add: comp_def)
qed

lemma sample_events_obs:
  "samples (sample_events r g) = [gumballWavTab ! g]"
  "wav_reads (sample_events r g) = [of_nat g]"
  "pitch_reads (sample_events r g) = []"
  "Xor_PORTB 0x08 \<notin> set (sample_events r g)"
  "PORTB_events (sample_events r g) = (if g = 91 then wrap_events r else [])"
  by (simp_all add: sample_events_def wrap_events_def samples_def wav_reads_def pitch_reads_def
      PORTB_events_def map_filter_append map_filter_replicate_None List.map_filter_simps)

lemma for_events_obs:
  "samples (for_events r g n) = map (\<lambda>m. gumballWavTab ! ((g + m) mod 92)) [0..<n]"
  "wav_reads (for_events r g n) = map (\<lambda>m. of_nat ((g + m) mod 92)) [0..<n]"
  "pitch_reads (for_events r g n) = []"
  "Xor_PORTB 0x08 \<notin> set (for_events r g n)"
proof -
  show "samples (for_events r g n) = map (\<lambda>m. gumballWavTab ! ((g + m) mod 92)) [0..<n]"
    using sample_events_obs(1)
    by (simp add: for_events_def samples_def map_filter_concat comp_def)
  show "wav_reads (for_events r g n) = map (\<lambda>m. of_nat ((g + m) mod 92)) [0..<n]"
    using sample_events_obs(2)
    by (simp add: for_events_def wav_reads_def map_filter_concat comp_def)
  show "pitch_reads (for_events r g n) = []"
    using sample_events_obs(3)
    by (simp add: for_events_def pitch_reads_def map_filter_concat comp_def)
  show "Xor_PORTB 0x08 \<notin> set (for_events r g n)"
    using sample_events_obs(4) by (simp add: for_events_def)
qed

lemma obs_append:
  "samples (xs @ ys) = samples xs @ samples ys"
  "wav_reads (xs @ ys) = wav_reads xs @ wav_reads ys"
  "pitch_reads (xs @ ys) = pitch_reads xs @ pitch_reads ys"
  by (simp_all add: samples_def wav_reads_def pitch_reads_def map_filter_append)

lemma obs_Cons:
  "samples (x # xs) = (case sample_of x of None \<Rightarrow> samples xs | Some v \<Rightarrow> v # samples xs)"
  "wav_reads (x # xs) = (case wav_index_of x of None \<Rightarrow> wav_reads xs | Some v \<Rightarrow> v # wav_reads xs)"
  "pitch_reads (x # xs) = (case pitch_index_of x of None \<Rightarrow> pitch_reads xs | Some v \<Rightarrow> v # pitch_reads xs)"
  by (simp_all add: samples_def wav_reads_def pitch_reads_def List.map_filter_simps
      split: option.split)

lemma obs_next_pitch:
  "samples [PgmRead_gumballPitch i, PgmRead_pitchDuration i, Xor_PORTB m] = []"
  "wav_reads [PgmRead_gumballPitch i, PgmRead_pitchDuration i, Xor_PORTB m] = []"
  "pitch_reads [PgmRead_gumballPitch i, PgmRead_pitchDuration i, Xor_PORTB m] = [i]"
  "samples [PgmRead_gumballPitch i, PgmRead_pitchDuration i] = []"
  "wav_reads [PgmRead_gumballPitch i, PgmRead_pitchDuration i] = []"
  "pitch_reads [PgmRead_gumballPitch i, PgmRead_pitchDuration i] = [i]"
  "samples [] = []" "wav_reads [] = []" "pitch_reads [] = []"
  by (simp_all add: samples_def wav_reads_def pitch_reads_def List.map_filter_simps)

lemma total_duration_simps:
  "total_duration [] = 0"
  "total_duration (e # es) = unat (pitchDuration e) + total_duration es"
  by (simp_all add: total_duration_def)

lemma shift_mod_92: "((g + d) mod 92 + m) mod 92 = (g + (d + m)) mod (92 :: nat)"
  by (simp add: mod_add_left_eq add.assoc)

lemma entries_events_samples:
  "samples (entries_events i g es)
     = map (\<lambda>m. gumballWavTab ! ((g + m) mod 92)) [0..<total_duration es]"
proof (induction es arbitrary: i g)
  case Nil
  show ?case by (simp add: total_duration_simps obs_next_pitch)
next
  case (Cons e es)
  let ?d = "unat (pitchDuration e)"
  have "samples (entries_events i g (e # es))
        = samples (for_events (gumballPitch e) g ?d)
          @ samples (entries_events (Suc i) ((g + ?d) mod 92) es)"
    by (simp add: obs_append obs_Cons)
  also have "\<dots> = map (\<lambda>m. gumballWavTab ! ((g + m) mod 92)) [0..<?d]
          @ map (\<lambda>m. gumballWavTab ! ((g + (?d + m)) mod 92)) [0..<total_duration es]"
    by (simp only: for_events_obs Cons.IH shift_mod_92)
  also have "\<dots> = map (\<lambda>m. gumballWavTab ! ((g + m) mod 92)) [0..<?d + total_duration es]"
    by (rule map_upt_add [symmetric])
  finally show ?case by (simp only: total_duration_simps)
qed

lemma entries_events_wav_reads:
  "wav_reads (entries_events i g es)
     = map (\<lambda>m. of_nat ((g + m) mod 92)) [0..<total_duration es]"
proof (induction es arbitrary: i g)
  case Nil
  show ?case by (simp add: total_duration_simps obs_next_pitch)
next
  case (Cons e es)
  let ?d = "unat (pitchDuration e)"
  have "wav_reads (entries_events i g (e # es))
        = wav_reads (for_events (gumballPitch e) g ?d)
          @ wav_reads (entries_events (Suc i) ((g + ?d) mod 92) es)"
    by (simp add: obs_append obs_Cons)
  also have "\<dots> = map (\<lambda>m. of_nat ((g + m) mod 92)) [0..<?d]
          @ map (\<lambda>m. of_nat ((g + (?d + m)) mod 92)) [0..<total_duration es]"
    by (simp only: for_events_obs Cons.IH shift_mod_92)
  also have "\<dots> = map (\<lambda>m. of_nat ((g + m) mod 92)) [0..<?d + total_duration es]"
    by (rule map_upt_add [symmetric])
  finally show ?case by (simp only: total_duration_simps)
qed

lemma upt_shift_Cons: "[i..<i + Suc n] = i # [Suc i..<Suc i + n]"
  using upt_conv_Cons [of i "i + Suc n"] by simp

lemma entries_events_pitch_reads:
  "pitch_reads (entries_events i g es) = map of_nat [Suc i..<Suc i + length es]"
proof (induction es arbitrary: i g)
  case Nil
  show ?case by (simp add: obs_next_pitch)
next
  case (Cons e es)
  have "pitch_reads (entries_events i g (e # es))
        = of_nat (Suc i) # pitch_reads (entries_events (Suc i) ((g + unat (pitchDuration e)) mod 92) es)"
    by (simp add: obs_append obs_Cons for_events_obs)
  also have "\<dots> = of_nat (Suc i) # map of_nat [Suc (Suc i)..<Suc (Suc i) + length es]"
    by (simp only: Cons.IH)
  also have "\<dots> = map of_nat [Suc i..<Suc i + Suc (length es)]"
    by (simp only: upt_shift_Cons [of "Suc i"] list.map)
  finally show ?case by (simp only: list.size) simp
qed

lemma blue_runs_no_blue:
  "Xor_PORTB 0x08 \<notin> set xs \<Longrightarrow> blue_runs n (xs @ ys) = blue_runs (n + length (samples xs)) ys"
proof (induction xs arbitrary: n)
  case Nil
  show ?case by (simp add: obs_next_pitch)
next
  case (Cons x xs)
  then show ?case
    by (cases "sample_of x") (auto simp: obs_Cons)
qed

lemma entries_events_blue_runs:
  "blue_runs n (entries_events i g es)
     = (case es of [] \<Rightarrow> [n]
        | e # es' \<Rightarrow> (n + unat (pitchDuration e)) # map (\<lambda>e. unat (pitchDuration e)) es' @ [0])"
proof (induction es arbitrary: n i g)
  case Nil
  show ?case by simp
next
  case (Cons e es)
  have "blue_runs n (entries_events i g (e # es))
        = blue_runs (n + unat (pitchDuration e))
            ([PgmRead_gumballPitch (of_nat (Suc i)), PgmRead_pitchDuration (of_nat (Suc i)), Xor_PORTB 0x08]
             @ entries_events (Suc i) ((g + unat (pitchDuration e)) mod 92) es)"
    using blue_runs_no_blue [OF for_events_obs(4)] by (simp add: for_events_obs)
  also have "\<dots> = (n + unat (pitchDuration e))
        # blue_runs 0 (entries_events (Suc i) ((g + unat (pitchDuration e)) mod 92) es)"
    by simp
  finally show ?case using Cons [of 0] by (simp split: list.split)
qed

lemma pass_events_obs:
  "samples (pass_events es) = map (\<lambda>m. gumballWavTab ! (m mod 92)) [0..<total_duration es]"
  "wav_reads (pass_events es) = map (\<lambda>m. of_nat (m mod 92)) [0..<total_duration es]"
  "pitch_reads (pass_events es) = map of_nat [0..<Suc (length es)]"
  "blue_runs 0 (pass_events es) = map (\<lambda>e. unat (pitchDuration e)) es @ [0]"
proof -
  show "samples (pass_events es) = map (\<lambda>m. gumballWavTab ! (m mod 92)) [0..<total_duration es]"
    by (simp add: pass_events_def obs_Cons entries_events_samples)
  show "wav_reads (pass_events es) = map (\<lambda>m. of_nat (m mod 92)) [0..<total_duration es]"
    by (simp add: pass_events_def obs_Cons entries_events_wav_reads)
  have "pitch_reads (pass_events es) = of_nat 0 # map of_nat [Suc 0..<Suc 0 + length es]"
    by (simp add: pass_events_def obs_Cons entries_events_pitch_reads del: upt_Suc)
  also have "\<dots> = map of_nat [0..<0 + Suc (length es)]"
    by (simp only: upt_shift_Cons [of 0] list.map)
  finally show "pitch_reads (pass_events es) = map of_nat [0..<Suc (length es)]"
    by (simp only: add_0)
  show "blue_runs 0 (pass_events es) = map (\<lambda>e. unat (pitchDuration e)) es @ [0]"
    by (simp add: pass_events_def entries_events_blue_runs split: list.split)
qed

lemma main_loop_result:
  assumes "tab = es @ z # rest" "\<forall>e\<in>set es. gumballPitch e \<noteq> 0" "gumballPitch z = 0"
    "length es < 256"
  shows "\<exists>s'. main_loop n tab s = Some (Inr s')
     \<and> trace s' = trace s @ concat (replicate n (pass_events es))"
proof (induction n arbitrary: s)
  case 0
  show ?case by simp
next
  case (Suc n)
  from pass_result [OF assms, of s] obtain s1 where s1:
    "pass tab s = Some (Inr s1)" "trace s1 = trace s @ pass_events es"
    by blast
  from Suc [of s1] obtain s' where
    "main_loop n tab s1 = Some (Inr s')"
    "trace s' = trace s1 @ concat (replicate n (pass_events es))"
    by blast
  with s1 show ?case by simp
qed

lemma unat_of_nat_u8: "n < 256 \<Longrightarrow> unat (of_nat n :: u8) = n"
  by (simp add: unat_of_nat)

lemma sample_events_no_pitch_read:
  "\<forall>e\<in>set (sample_events r g). pitch_index_of e = None"
  by (auto simp: sample_events_def wrap_events_def)

lemma for_events_no_pitch_read:
  "\<forall>e\<in>set (for_events r g n). pitch_index_of e = None"
  using sample_events_no_pitch_read by (auto simp: for_events_def)

lemma entry_runs_skip:
  "\<forall>e\<in>set xs. pitch_index_of e = None \<Longrightarrow> entry_runs (xs @ ys) = entry_runs ys"
  by (induction xs) simp_all

lemma samples_until_next_entry_read:
  "\<forall>e\<in>set xs. pitch_index_of e = None \<Longrightarrow>
   samples_until_next_entry (xs @ PgmRead_gumballPitch i # ys) = length (samples xs)"
  by (simp add: samples_until_next_entry_def takeWhile_append2)

lemma samples_until_next_entry_end:
  "\<forall>e\<in>set xs. pitch_index_of e = None \<Longrightarrow>
   samples_until_next_entry xs = length (samples xs)"
  by (simp add: samples_until_next_entry_def takeWhile_eq_all_conv [THEN iffD2])

lemma entries_events_entry_runs:
  "\<forall>e\<in>set pre. pitch_index_of e = None \<Longrightarrow> samples pre = [] \<Longrightarrow>
   entry_runs (PgmRead_gumballPitch j # pre @ entries_events i g es)
     = zip (j # map of_nat [Suc i..<Suc i + length es]) (map (\<lambda>e. unat (pitchDuration e)) es @ [0])"
proof (induction es arbitrary: j pre i g)
  case Nil
  then show ?case
    by (simp add: entry_runs_skip [of pre "[]", simplified] samples_until_next_entry_end)
next
  case (Cons e es)
  let ?f = "for_events (gumballPitch e) g (unat (pitchDuration e))"
  let ?rest = "[PgmRead_pitchDuration (of_nat (Suc i)), Xor_PORTB 0x08]"
  let ?tl = "entries_events (Suc i) ((g + unat (pitchDuration e)) mod 92) es"
  have np: "\<forall>x\<in>set (pre @ ?f). pitch_index_of x = None"
    using Cons.prems(1) for_events_no_pitch_read by auto
  have split: "pre @ entries_events i g (e # es)
        = (pre @ ?f) @ PgmRead_gumballPitch (of_nat (Suc i)) # ?rest @ ?tl"
    by simp
  have "samples_until_next_entry (pre @ entries_events i g (e # es)) = length (samples (pre @ ?f))"
    unfolding split using np by (rule samples_until_next_entry_read)
  also have "\<dots> = unat (pitchDuration e)"
    using Cons.prems(2) by (simp add: obs_append for_events_obs)
  finally have a: "samples_until_next_entry (pre @ entries_events i g (e # es)) = unat (pitchDuration e)" .
  have "entry_runs (pre @ entries_events i g (e # es))
        = entry_runs (PgmRead_gumballPitch (of_nat (Suc i)) # ?rest @ ?tl)"
    unfolding split using np by (rule entry_runs_skip)
  also have "\<dots> = zip (of_nat (Suc i) # map of_nat [Suc (Suc i)..<Suc (Suc i) + length es])
                        (map (\<lambda>e. unat (pitchDuration e)) es @ [0])"
    by (rule Cons.IH) (simp_all add: obs_Cons obs_next_pitch)
  finally have b: "entry_runs (pre @ entries_events i g (e # es))
        = zip (of_nat (Suc i) # map of_nat [Suc (Suc i)..<Suc (Suc i) + length es])
              (map (\<lambda>e. unat (pitchDuration e)) es @ [0])" .
  have c: "map of_nat [Suc i..<Suc i + length (e # es)]
        = (of_nat (Suc i) :: u8) # map of_nat [Suc (Suc i)..<Suc (Suc i) + length es]"
    by (simp only: length_Cons upt_shift_Cons [of "Suc i"] list.map)
  have "entry_runs (PgmRead_gumballPitch j # pre @ entries_events i g (e # es))
        = (j, samples_until_next_entry (pre @ entries_events i g (e # es)))
          # entry_runs (pre @ entries_events i g (e # es))"
    by simp
  also have "\<dots> = (j, unat (pitchDuration e))
          # zip (of_nat (Suc i) # map of_nat [Suc (Suc i)..<Suc (Suc i) + length es])
              (map (\<lambda>e. unat (pitchDuration e)) es @ [0])"
    by (simp only: a b)
  also have "\<dots> = zip (j # map of_nat [Suc i..<Suc i + length (e # es)])
                        (map (\<lambda>e. unat (pitchDuration e)) (e # es) @ [0])"
    by (simp only: c) simp
  finally show ?case .
qed

lemma pass_events_entry_runs:
  "entry_runs (pass_events es)
     = zip (map of_nat [0..<Suc (length es)]) (map (\<lambda>e. unat (pitchDuration e)) es @ [0])"
proof -
  have "entry_runs (pass_events es)
        = entry_runs (PgmRead_gumballPitch 0 # [PgmRead_pitchDuration 0] @ entries_events 0 0 es)"
    by (simp add: pass_events_def)
  also have "\<dots> = zip (0 # map of_nat [Suc 0..<Suc 0 + length es])
                        (map (\<lambda>e. unat (pitchDuration e)) es @ [0])"
    by (rule entries_events_entry_runs) (simp_all add: obs_Cons obs_next_pitch)
  also have "(0 :: u8) # map of_nat [Suc 0..<Suc 0 + length es] = map of_nat [0..<0 + Suc (length es)]"
    by (simp only: upt_shift_Cons [of 0] list.map) simp
  finally show ?thesis by (simp only: add_0)
qed

lemma pass_events_samples_read:
  "samples (pass_events es) = map (\<lambda>i. gumballWavTab ! unat i) (wav_reads (pass_events es))"
proof -
  have "unat (of_nat (m mod 92) :: u8) = m mod 92" for m
    by (rule unat_of_nat_u8) simp
  then show ?thesis by (simp add: pass_events_obs comp_def)
qed

text \<open>
  C1. Take a table made of entries \<open>es\<close> with non-zero pitch, a sentinel \<open>z\<close> and
  anything after it. A pass returns, and in its log the read of every entry \<open>i\<close> of
  \<open>es\<close> is followed by exactly as many writes of a sample to \<open>OCR0A\<close> as the duration
  field of \<open>tab ! i\<close> says, before the read of entry \<open>i + 1\<close>; no sample follows the
  read of the sentinel. Every sample written is the waveform value at the index read
  for it, one write for each read, and the pass writes as many samples as the
  durations add up to.
\<close>

theorem each_entry_emits_its_duration:
  assumes "tab = es @ z # rest" "\<forall>e\<in>set es. gumballPitch e \<noteq> 0" "gumballPitch z = 0"
    "length es < 256"
  shows "\<exists>s' ev. pass tab s = Some (Inr s') \<and> trace s' = trace s @ ev
     \<and> entry_runs ev = zip (map of_nat [0..<Suc (length es)])
                           (map (\<lambda>e. unat (pitchDuration e)) es @ [0])
     \<and> (\<forall>i<length es. gumballPitch (tab ! i) \<noteq> 0
            \<and> entry_runs ev ! i = (of_nat i, unat (pitchDuration (tab ! i))))
     \<and> samples ev = map (\<lambda>i. gumballWavTab ! unat i) (wav_reads ev)
     \<and> length (samples ev) = total_duration es"
proof -
  from pass_result [OF assms, of s] obtain s' where s':
    "pass tab s = Some (Inr s')" "trace s' = trace s @ pass_events es"
    by blast
  let ?runs = "zip (map of_nat [0..<Suc (length es)]) (map (\<lambda>e. unat (pitchDuration e)) es @ [0])
                 :: (u8 \<times> nat) list"
  have each: "gumballPitch (tab ! i) \<noteq> 0 \<and> ?runs ! i = (of_nat i, unat (pitchDuration (tab ! i)))"
    if "i < length es" for i
  proof -
    have t: "tab ! i = es ! i" using that assms(1) by (simp add: nth_append)
    have "(map (\<lambda>e. unat (pitchDuration e)) es @ [0]) ! i = unat (pitchDuration (es ! i))"
      using that by (simp add: nth_append)
    moreover have "map of_nat [0..<Suc (length es)] ! i = (of_nat i :: u8)"
      using that by (simp del: upt_Suc)
    ultimately have "?runs ! i = (of_nat i, unat (pitchDuration (es ! i)))"
      using that by (simp del: upt_Suc)
    moreover have "gumballPitch (es ! i) \<noteq> 0" using that assms(2) by simp
    ultimately show ?thesis using t by simp
  qed
  have "length (samples (pass_events es)) = total_duration es"
    by (simp add: pass_events_obs)
  with s' each show ?thesis
    using pass_events_entry_runs [of es] pass_events_samples_read [of es]
    by (intro exI [of _ s'] exI [of _ "pass_events es"]) simp
qed

theorem each_entry_emits_its_duration_witness:
  "\<exists>s' ev. pass [pe 100 5, pe 50 3, pe 0 0]
               \<lparr>PORTB = 0, OCR0A = 0, trace = [], gumIndex = 90, gumWavDat = 0,
                pitchIndex = 7, pitchRate = 0, pitchLen = 0\<rparr> = Some (Inr s')
     \<and> trace s' = ev
     \<and> entry_runs ev = [(0, 5), (1, 3), (2, 0)]
     \<and> samples ev = map (\<lambda>i. gumballWavTab ! unat i) (wav_reads ev)
     \<and> length (samples ev) = 8"
proof -
  let ?s = "\<lparr>PORTB = 0, OCR0A = 0, trace = [], gumIndex = 90, gumWavDat = 0,
             pitchIndex = 7, pitchRate = 0, pitchLen = 0\<rparr>"
  have "[pe 100 5, pe 50 3, pe 0 0] = [pe 100 5, pe 50 3] @ pe 0 0 # []"
    and "\<forall>e\<in>set [pe 100 5, pe 50 3]. gumballPitch e \<noteq> 0"
    and "gumballPitch (pe 0 0) = 0" and "length [pe 100 5, pe 50 3] < 256"
    by (simp_all add: pe_def)
  from each_entry_emits_its_duration [OF this, of ?s] obtain s' ev where r:
    "pass [pe 100 5, pe 50 3, pe 0 0] ?s = Some (Inr s')" "trace s' = trace ?s @ ev"
    "entry_runs ev = zip (map of_nat [0..<Suc (length [pe 100 5, pe 50 3])])
                         (map (\<lambda>e. unat (pitchDuration e)) [pe 100 5, pe 50 3] @ [0])"
    "samples ev = map (\<lambda>i. gumballWavTab ! unat i) (wav_reads ev)"
    "length (samples ev) = total_duration [pe 100 5, pe 50 3]"
    by blast
  from r(2) have "trace s' = ev" by simp
  moreover from r(3) have "entry_runs ev = [(0, 5), (1, 3), (2, 0)]"
    by (simp add: upt_rec pe_def)
  moreover from r(5) have "length (samples ev) = 8"
    by (simp add: total_duration_def pe_def)
  ultimately show ?thesis using r(1,4) by blast
qed

text \<open>
  C3. One iteration of the \<open>for\<close> loop wraps the waveform index to 0 exactly when it
  was 91. At a wraparound the operations on \<open>PORTB\<close> are: one toggle of the red LED
  (\<open>PORTB ^= 0x04\<close>) if and only if the pitch is a multiple of 50 or of 20, then one
  toggle of the green LED (\<open>PORTB ^= 0x02\<close>) if and only if the pitch is a multiple of
  40 or of 10, each decided on its own; without a wraparound \<open>PORTB\<close> is not touched.
  Pitch 20 gives both toggles and pitch 7 gives none.
\<close>

theorem wraparound_toggles_red_and_green:
  assumes "unat (gumIndex s) < 92"
  shows "\<exists>s' ev. play_sample s = Some (Inr s') \<and> trace s' = trace s @ ev
    \<and> (gumIndex s' = 0) = (unat (gumIndex s) = 91)
    \<and> PORTB_events ev =
        (if unat (gumIndex s) = 91
         then (if 50 dvd unat (pitchRate s) \<or> 20 dvd unat (pitchRate s) then [Xor_PORTB 0x04] else [])
            @ (if 40 dvd unat (pitchRate s) \<or> 10 dvd unat (pitchRate s) then [Xor_PORTB 0x02] else [])
         else [])
    \<and> PORTB s' =
        (if unat (gumIndex s) = 91
         then PORTB s XOR (if 50 dvd unat (pitchRate s) \<or> 20 dvd unat (pitchRate s) then 0x04 else 0)
                      XOR (if 40 dvd unat (pitchRate s) \<or> 10 dvd unat (pitchRate s) then 0x02 else 0)
         else PORTB s)"
proof -
  from play_sample_result [OF assms] obtain s' where s':
    "play_sample s = Some (Inr s')"
    "trace s' = trace s @ sample_events (pitchRate s) (unat (gumIndex s))"
    "unat (gumIndex s') = Suc (unat (gumIndex s)) mod 92"
    "PORTB s' = (if unat (gumIndex s) = 91
         then PORTB s XOR (if 50 dvd unat (pitchRate s) \<or> 20 dvd unat (pitchRate s) then 0x04 else 0)
                      XOR (if 40 dvd unat (pitchRate s) \<or> 10 dvd unat (pitchRate s) then 0x02 else 0)
         else PORTB s)"
    by blast
  have "(gumIndex s' = 0) = (unat (gumIndex s') = 0)" by (simp add: unat_eq_0)
  also have "\<dots> = (unat (gumIndex s) = 91)" using s'(3) assms by (auto simp: mod_Suc)
  finally have "(gumIndex s' = 0) = (unat (gumIndex s) = 91)" .
  with s' show ?thesis
    by (simp add: sample_events_obs wrap_events_def)
qed

theorem wraparound_toggles_red_and_green_witness:
  "(\<exists>s' ev. play_sample \<lparr>PORTB = 0, OCR0A = 0, trace = [], gumIndex = 91, gumWavDat = 0,
                          pitchIndex = 0, pitchRate = 20, pitchLen = 5\<rparr> = Some (Inr s')
      \<and> trace s' = ev \<and> gumIndex s' = 0
      \<and> PORTB_events ev = [Xor_PORTB 0x04, Xor_PORTB 0x02] \<and> PORTB s' = 0x06)
   \<and> (\<exists>s' ev. play_sample \<lparr>PORTB = 0, OCR0A = 0, trace = [], gumIndex = 91, gumWavDat = 0,
                          pitchIndex = 0, pitchRate = 7, pitchLen = 5\<rparr> = Some (Inr s')
      \<and> trace s' = ev \<and> gumIndex s' = 0
      \<and> PORTB_events ev = [] \<and> PORTB s' = 0)"
  using wraparound_toggles_red_and_green [of "\<lparr>PORTB = 0, OCR0A = 0, trace = [], gumIndex = 91,
      gumWavDat = 0, pitchIndex = 0, pitchRate = 20, pitchLen = 5\<rparr>"]
    wraparound_toggles_red_and_green [of "\<lparr>PORTB = 0, OCR0A = 0, trace = [], gumIndex = 91,
      gumWavDat = 0, pitchIndex = 0, pitchRate = 7, pitchLen = 5\<rparr>"]
  by simp

text \<open>
  C4, as stated, fails in its last part. After the samples of an entry the code first
  increments \<open>pitchIndex\<close> and reads the next entry, and toggles the blue LED last:
  on the table \<open>{(100,5),(50,3),(0,0)}\<close>, after the samples of entry 0, the log is the
  two reads of entry 1 followed by \<open>PORTB ^= 0x08\<close>, executed with \<open>pitchIndex = 1\<close>.
\<close>

theorem next_pitch_reads_before_blue_toggle:
  "map_sum id (\<lambda>s. (trace s, pitchIndex s, pitchRate s, pitchLen s))
     (next_pitch [pe 100 5, pe 50 3, pe 0 0]
        \<lparr>PORTB = 0, OCR0A = 0xb2, trace = [], gumIndex = 5, gumWavDat = 0xb2,
         pitchIndex = 0, pitchRate = 100, pitchLen = 5\<rparr>)
   = Inr ([PgmRead_gumballPitch 1, PgmRead_pitchDuration 1, Xor_PORTB 0x08], 1, 50, 3)"
  by (simp add: next_pitch_def read_pitchTab_def PORTB_xor_def B8_values pe_def)

text \<open>
  C4, amended. For every entry that is played, whatever its pitch and duration, the
  blue LED is toggled exactly once: the log of the entry is the log of its \<open>pitchLen\<close>
  samples, which contains no toggle of the blue LED and leaves bit 3 of \<open>PORTB\<close> as it
  was, then the two reads of the next entry at the incremented pitch index, then the
  toggle \<open>PORTB ^= 0x08\<close>, which flips bit 3. The toggle comes after the pitch index is
  advanced and the next entry is read.
\<close>

theorem blue_toggle_once_per_entry:
  assumes "unat (gumIndex s) < 92"
    and "Suc (unat (pitchIndex s)) < length tab" and "Suc (unat (pitchIndex s)) < 256"
  shows "\<exists>s1 s2 ev. play_for 0 s = Some (Inr s1) \<and> next_pitch tab s1 = Inr s2
    \<and> trace s2 = trace s @ ev @ [PgmRead_gumballPitch (pitchIndex s + 1),
                                   PgmRead_pitchDuration (pitchIndex s + 1), Xor_PORTB 0x08]
    \<and> length (samples ev) = unat (pitchLen s)
    \<and> Xor_PORTB 0x08 \<notin> set ev
    \<and> PORTB s2 AND 0x08 = (PORTB s AND 0x08) XOR 0x08
    \<and> pitchIndex s2 = pitchIndex s + 1
    \<and> (pitchRate s \<noteq> 0 \<longrightarrow> pitch_while tab s = pitch_while tab s2)"
proof -
  from play_for_result [of s 0] assms(1) obtain s1 where s1:
    "play_for 0 s = Some (Inr s1)"
    "trace s1 = trace s @ for_events (pitchRate s) (unat (gumIndex s)) (unat (pitchLen s))"
    "pitchIndex s1 = pitchIndex s"
    "PORTB s1 AND 0x08 = PORTB s AND 0x08"
    by auto
  have "Suc (unat (pitchIndex s1)) < length tab" "Suc (unat (pitchIndex s1)) < 256"
    using assms s1(3) by simp_all
  from next_pitch_result [OF this] obtain s2 where s2:
    "next_pitch tab s1 = Inr s2"
    "trace s2 = trace s1 @ [PgmRead_gumballPitch (pitchIndex s1 + 1),
                            PgmRead_pitchDuration (pitchIndex s1 + 1), Xor_PORTB 0x08]"
    "unat (pitchIndex s2) = Suc (unat (pitchIndex s1))"
    "PORTB s2 = PORTB s1 XOR 0x08"
    by blast
  have "pitchIndex s1 \<noteq> - 1"
    using \<open>Suc (unat (pitchIndex s1)) < 256\<close>
    by (auto simp: unsigned_minus_1_eq_mask mask_eq_exp_minus_1)
  then have "unat (pitchIndex s1 + 1) = Suc (unat (pitchIndex s1))" by (rule word_succ_unat)
  with s2(3) have idx: "pitchIndex s2 = pitchIndex s1 + 1" by (simp add: word_unat_eq_iff)
  have blue: "PORTB s2 AND 0x08 = (PORTB s AND 0x08) XOR 0x08"
    using s2(4) s1(4) by (simp add: bit.conj_xor_distrib2)
  have "pitchRate s \<noteq> 0 \<longrightarrow> pitch_while tab s = pitch_while tab s2"
    using s1(1) s2(1) by (subst pitch_while.simps) simp
  with s1 s2 idx blue show ?thesis
    by (simp add: for_events_obs)
qed

theorem blue_toggle_once_per_entry_witness:
  "\<exists>s1 s2 ev. play_for 0 \<lparr>PORTB = 0, OCR0A = 0, trace = [], gumIndex = 0, gumWavDat = 0,
                          pitchIndex = 0, pitchRate = 100, pitchLen = 5\<rparr> = Some (Inr s1)
    \<and> next_pitch [pe 100 5, pe 50 3, pe 0 0] s1 = Inr s2
    \<and> trace s2 = ev @ [PgmRead_gumballPitch 1, PgmRead_pitchDuration 1, Xor_PORTB 0x08]
    \<and> length (samples ev) = 5 \<and> Xor_PORTB 0x08 \<notin> set ev
    \<and> PORTB s2 AND 0x08 = 0x08 \<and> pitchIndex s2 = 1"
proof -
  from blue_toggle_once_per_entry [of "\<lparr>PORTB = 0, OCR0A = 0, trace = [], gumIndex = 0,
      gumWavDat = 0, pitchIndex = 0, pitchRate = 100, pitchLen = 5\<rparr>" "[pe 100 5, pe 50 3, pe 0 0]"]
  obtain s1 s2 ev where "play_for 0 \<lparr>PORTB = 0, OCR0A = 0, trace = [], gumIndex = 0, gumWavDat = 0,
                          pitchIndex = 0, pitchRate = 100, pitchLen = 5\<rparr> = Some (Inr s1)"
    "next_pitch [pe 100 5, pe 50 3, pe 0 0] s1 = Inr s2"
    "trace s2 = ev @ [PgmRead_gumballPitch 1, PgmRead_pitchDuration 1, Xor_PORTB 0x08]"
    "length (samples ev) = 5" "Xor_PORTB 0x08 \<notin> set ev"
    "PORTB s2 AND 0x08 = 0x08" "pitchIndex s2 = 1"
    by auto
  then show ?thesis by blast
qed

lemma pitchTab_split:
  "pitchTab = butlast pitchTab @ pe 0 0 # []"
  "\<forall>e\<in>set (butlast pitchTab). gumballPitch e \<noteq> 0"
  "gumballPitch (pe 0 0) = 0"
  "length (butlast pitchTab) < 256"
  by (simp_all add: pitchTab_def pe_def)

lemma pitchTab_sizes:
  "length (butlast pitchTab) = 72" "total_duration (butlast pitchTab) = 18007"
  by (simp_all add: pitchTab_def pe_def total_duration_def)

text \<open>
  C2. Take a table made of entries \<open>es\<close> with non-zero pitch, a sentinel \<open>z\<close> and
  anything after it. A pass returns, and in its log every read of the waveform table
  is at an index below 92 and every read of the pitch table at an index at most
  \<open>length es\<close>, the index of the sentinel, which is read last and only once. The \<open>m\<close>-th
  sample of the pass is read at index \<open>m mod 92\<close>: the waveform index runs through
  0, ..., 91 and is back at 0 after every 92 samples. At the end of the pass the
  waveform index is below 92 and the pitch index is that of the sentinel. Every
  iteration of the \<open>for\<close> loop entered with a waveform index below 92 leaves it below
  92. Each such iteration starts with a read at the current waveform index, and
  every assignment to the pitch index is followed by a read at it, so the log holds
  the value of both indices at every iteration of every loop.
\<close>

theorem cursor_stays_in_range:
  assumes "tab = es @ z # rest" "\<forall>e\<in>set es. gumballPitch e \<noteq> 0" "gumballPitch z = 0"
    "length es < 256"
  shows "(\<forall>t. unat (gumIndex t) < 92 \<longrightarrow>
            (\<exists>t'. play_sample t = Some (Inr t') \<and> unat (gumIndex t') < 92))
   \<and> (\<exists>s' ev. pass tab s = Some (Inr s') \<and> trace s' = trace s @ ev
     \<and> (\<forall>i\<in>set (wav_reads ev). unat i < 92)
     \<and> (\<forall>i\<in>set (pitch_reads ev). unat i \<le> length es)
     \<and> wav_reads ev = map (\<lambda>m. of_nat (m mod 92)) [0..<total_duration es]
     \<and> samples ev = map (\<lambda>m. gumballWavTab ! (m mod 92)) [0..<total_duration es]
     \<and> butlast (pitch_reads ev) = map of_nat [0..<length es]
     \<and> last (pitch_reads ev) = of_nat (length es)
     \<and> unat (gumIndex s') = total_duration es mod 92 \<and> unat (gumIndex s') < 92
     \<and> unat (pitchIndex s') = length es)"
proof -
  have step: "\<exists>t'. play_sample t = Some (Inr t') \<and> unat (gumIndex t') < 92"
    if "unat (gumIndex t) < 92" for t
    using play_sample_result [OF that] by auto
  from pass_result [OF assms, of s] obtain s' where s':
    "pass tab s = Some (Inr s')" "trace s' = trace s @ pass_events es"
    "unat (pitchIndex s') = length es" "unat (gumIndex s') = total_duration es mod 92"
    by blast
  have w: "\<forall>i\<in>set (wav_reads (pass_events es)). unat i < 92"
  proof -
    have "unat (of_nat (m mod 92) :: u8) < 92" for m
      using unat_of_nat_u8 [of "m mod 92"] by simp
    then show ?thesis by (auto simp: pass_events_obs)
  qed
  have p: "\<forall>i\<in>set (pitch_reads (pass_events es)). unat i \<le> length es"
  proof -
    have "unat (of_nat m :: u8) \<le> length es" if "m \<le> length es" for m
      using unat_of_nat_u8 [of m] that assms(4) by simp
    then show ?thesis by (auto simp: pass_events_obs simp del: upt_Suc)
  qed
  have "pitch_reads (pass_events es) = map of_nat [0..<length es] @ [of_nat (length es)]"
    by (simp add: pass_events_obs)
  then have b: "butlast (pitch_reads (pass_events es)) = map of_nat [0..<length es]"
    "last (pitch_reads (pass_events es)) = of_nat (length es)"
    by simp_all
  from s' w p b have "\<exists>s' ev. pass tab s = Some (Inr s') \<and> trace s' = trace s @ ev
     \<and> (\<forall>i\<in>set (wav_reads ev). unat i < 92)
     \<and> (\<forall>i\<in>set (pitch_reads ev). unat i \<le> length es)
     \<and> wav_reads ev = map (\<lambda>m. of_nat (m mod 92)) [0..<total_duration es]
     \<and> samples ev = map (\<lambda>m. gumballWavTab ! (m mod 92)) [0..<total_duration es]
     \<and> butlast (pitch_reads ev) = map of_nat [0..<length es]
     \<and> last (pitch_reads ev) = of_nat (length es)
     \<and> unat (gumIndex s') = total_duration es mod 92 \<and> unat (gumIndex s') < 92
     \<and> unat (pitchIndex s') = length es"
    by (simp add: pass_events_obs(1,2))
  with step show ?thesis by blast
qed

theorem cursor_stays_in_range_witness:
  "(\<exists>t'. play_sample \<lparr>PORTB = 0, OCR0A = 0, trace = [], gumIndex = 91, gumWavDat = 0,
                          pitchIndex = 0, pitchRate = 100, pitchLen = 280\<rparr> = Some (Inr t')
      \<and> unat (gumIndex t') < 92)
   \<and> (\<exists>s' ev. pass pitchTab \<lparr>PORTB = 0, OCR0A = 0, trace = [], gumIndex = 50, gumWavDat = 0,
                          pitchIndex = 9, pitchRate = 0, pitchLen = 0\<rparr> = Some (Inr s')
     \<and> trace s' = ev
     \<and> (\<forall>i\<in>set (wav_reads ev). unat i < 92)
     \<and> (\<forall>i\<in>set (pitch_reads ev). unat i \<le> 72)
     \<and> length (wav_reads ev) = 18007
     \<and> unat (gumIndex s') = 67 \<and> unat (pitchIndex s') = 72)"
proof -
  let ?s = "\<lparr>PORTB = 0, OCR0A = 0, trace = [], gumIndex = 50, gumWavDat = 0,
             pitchIndex = 9, pitchRate = 0, pitchLen = 0\<rparr>"
  let ?t = "\<lparr>PORTB = 0, OCR0A = 0, trace = [], gumIndex = 91, gumWavDat = 0,
             pitchIndex = 0, pitchRate = 100, pitchLen = 280\<rparr>"
  from cursor_stays_in_range [OF pitchTab_split, of ?s]
  have "\<forall>t. unat (gumIndex t) < 92 \<longrightarrow>
            (\<exists>t'. play_sample t = Some (Inr t') \<and> unat (gumIndex t') < 92)"
    by (rule conjunct1)
  then have "unat (gumIndex ?t) < 92 \<longrightarrow>
            (\<exists>t'. play_sample ?t = Some (Inr t') \<and> unat (gumIndex t') < 92)"
    by (rule spec)
  then have first: "\<exists>t'. play_sample ?t = Some (Inr t') \<and> unat (gumIndex t') < 92"
    by simp
  from cursor_stays_in_range [OF pitchTab_split, of ?s]
  have "\<exists>s' ev. pass pitchTab ?s = Some (Inr s') \<and> trace s' = trace ?s @ ev
     \<and> (\<forall>i\<in>set (wav_reads ev). unat i < 92)
     \<and> (\<forall>i\<in>set (pitch_reads ev). unat i \<le> length (butlast pitchTab))
     \<and> wav_reads ev = map (\<lambda>m. of_nat (m mod 92)) [0..<total_duration (butlast pitchTab)]
     \<and> samples ev = map (\<lambda>m. gumballWavTab ! (m mod 92)) [0..<total_duration (butlast pitchTab)]
     \<and> butlast (pitch_reads ev) = map of_nat [0..<length (butlast pitchTab)]
     \<and> last (pitch_reads ev) = of_nat (length (butlast pitchTab))
     \<and> unat (gumIndex s') = total_duration (butlast pitchTab) mod 92 \<and> unat (gumIndex s') < 92
     \<and> unat (pitchIndex s') = length (butlast pitchTab)"
    by (rule conjunct2)
  then obtain s' ev where r: "pass pitchTab ?s = Some (Inr s')" "trace s' = trace ?s @ ev"
    "\<forall>i\<in>set (wav_reads ev). unat i < 92"
    "\<forall>i\<in>set (pitch_reads ev). unat i \<le> length (butlast pitchTab)"
    "wav_reads ev = map (\<lambda>m. of_nat (m mod 92)) [0..<total_duration (butlast pitchTab)]"
    "unat (gumIndex s') = total_duration (butlast pitchTab) mod 92"
    "unat (pitchIndex s') = length (butlast pitchTab)"
    by blast
  from r(2) have "trace s' = ev" by simp
  moreover from r(4) have "\<forall>i\<in>set (pitch_reads ev). unat i \<le> 72"
    by (simp only: pitchTab_sizes)
  moreover from r(5) have "length (wav_reads ev) = 18007"
    by (simp only: pitchTab_sizes length_map length_upt)
  moreover from r(6) have "unat (gumIndex s') = 67"
    by (simp only: pitchTab_sizes) simp
  moreover from r(7) have "unat (pitchIndex s') = 72"
    by (simp only: pitchTab_sizes)
  ultimately have "\<exists>s' ev. pass pitchTab ?s = Some (Inr s')
     \<and> trace s' = ev
     \<and> (\<forall>i\<in>set (wav_reads ev). unat i < 92)
     \<and> (\<forall>i\<in>set (pitch_reads ev). unat i \<le> 72)
     \<and> length (wav_reads ev) = 18007
     \<and> unat (gumIndex s') = 67 \<and> unat (pitchIndex s') = 72"
    using r(1,3) by blast
  with first show ?thesis by (rule conjI)
qed

text \<open>
  C5. On a table made of entries \<open>es\<close> with non-zero pitch followed by a first entry
  \<open>z\<close> with pitch 0, a pass returns with the pitch index at \<open>z\<close>: it reads the entries
  0, ..., \<open>length es\<close> in order, writes as many samples as the durations of \<open>es\<close> add up
  to, and toggles the blue LED once after the samples of each entry of \<open>es\<close>. Two
  iterations of \<open>while (1)\<close> log the events of the pass twice: the next pass starts
  again at waveform index 0 and pitch index 0. On the table \<open>{(100,5),(50,3),(0,0)}\<close>
  a pass writes 8 samples, 5 before the first toggle of the blue LED and 3 before the
  second one, and none after it.
\<close>

theorem pass_ends_at_first_sentinel:
  "(tab = es @ z # rest \<longrightarrow> (\<forall>e\<in>set es. gumballPitch e \<noteq> 0) \<longrightarrow> gumballPitch z = 0 \<longrightarrow>
    length es < 256 \<longrightarrow>
     (\<exists>s1 s2 ev. pass tab s = Some (Inr s1) \<and> trace s1 = trace s @ ev
         \<and> unat (pitchIndex s1) = length es \<and> pitchRate s1 = 0
         \<and> pitch_reads ev = map of_nat [0..<Suc (length es)]
         \<and> wav_reads ev = map (\<lambda>m. of_nat (m mod 92)) [0..<total_duration es]
         \<and> length (samples ev) = total_duration es
         \<and> blue_runs 0 ev = map (\<lambda>e. unat (pitchDuration e)) es @ [0]
         \<and> main_loop 2 tab s = Some (Inr s2) \<and> trace s2 = trace s @ ev @ ev))
   \<and> (\<exists>s1 s2 ev. pass [pe 100 5, pe 50 3, pe 0 0] s = Some (Inr s1) \<and> trace s1 = trace s @ ev
         \<and> unat (pitchIndex s1) = 2
         \<and> pitch_reads ev = [0, 1, 2]
         \<and> wav_reads ev = [0, 1, 2, 3, 4, 5, 6, 7]
         \<and> length (samples ev) = 8
         \<and> blue_runs 0 ev = [5, 3, 0]
         \<and> main_loop 2 [pe 100 5, pe 50 3, pe 0 0] s = Some (Inr s2) \<and> trace s2 = trace s @ ev @ ev)"
proof -
  have general: "\<exists>s1 s2 ev. pass tab s = Some (Inr s1) \<and> trace s1 = trace s @ ev
         \<and> unat (pitchIndex s1) = length es \<and> pitchRate s1 = 0
         \<and> pitch_reads ev = map of_nat [0..<Suc (length es)]
         \<and> wav_reads ev = map (\<lambda>m. of_nat (m mod 92)) [0..<total_duration es]
         \<and> length (samples ev) = total_duration es
         \<and> blue_runs 0 ev = map (\<lambda>e. unat (pitchDuration e)) es @ [0]
         \<and> main_loop 2 tab s = Some (Inr s2) \<and> trace s2 = trace s @ ev @ ev"
    if a: "tab = es @ z # rest" "\<forall>e\<in>set es. gumballPitch e \<noteq> 0" "gumballPitch z = 0"
      "length es < 256"
    for tab es z rest
  proof -
    from pass_result [OF a, of s] obtain s1 where s1:
      "pass tab s = Some (Inr s1)" "trace s1 = trace s @ pass_events es"
      "unat (pitchIndex s1) = length es" "pitchRate s1 = 0"
      by blast
    from main_loop_result [OF a, of "Suc (Suc 0)" s] obtain s2 where s2:
      "main_loop (Suc (Suc 0)) tab s = Some (Inr s2)"
      "trace s2 = trace s @ pass_events es @ pass_events es"
      by auto
    have "main_loop 2 tab s = Some (Inr s2)"
      using s2(1) by (simp only: numeral_2_eq_2)
    with s1 s2(2) show ?thesis
      by (simp add: pass_events_obs del: upt_Suc)
  qed
  have "[pe 100 5, pe 50 3, pe 0 0] = [pe 100 5, pe 50 3] @ pe 0 0 # []"
    and "\<forall>e\<in>set [pe 100 5, pe 50 3]. gumballPitch e \<noteq> 0"
    and "gumballPitch (pe 0 0) = 0" and "length [pe 100 5, pe 50 3] < 256"
    by (simp_all add: pe_def)
  from general [OF this] obtain s1 s2 ev where r:
    "pass [pe 100 5, pe 50 3, pe 0 0] s = Some (Inr s1)" "trace s1 = trace s @ ev"
    "unat (pitchIndex s1) = length [pe 100 5, pe 50 3]"
    "pitch_reads ev = map of_nat [0..<Suc (length [pe 100 5, pe 50 3])]"
    "wav_reads ev = map (\<lambda>m. of_nat (m mod 92)) [0..<total_duration [pe 100 5, pe 50 3]]"
    "length (samples ev) = total_duration [pe 100 5, pe 50 3]"
    "blue_runs 0 ev = map (\<lambda>e. unat (pitchDuration e)) [pe 100 5, pe 50 3] @ [0]"
    "main_loop 2 [pe 100 5, pe 50 3, pe 0 0] s = Some (Inr s2)" "trace s2 = trace s @ ev @ ev"
    by blast
  have t: "total_duration [pe 100 5, pe 50 3] = 8"
    by (simp add: total_duration_def pe_def)
  from r(3) have "unat (pitchIndex s1) = 2" by simp
  moreover from r(4) have "pitch_reads ev = [0, 1, 2]" by (simp add: upt_rec)
  moreover from r(5) have "wav_reads ev = [0, 1, 2, 3, 4, 5, 6, 7]"
    unfolding t by (simp add: upt_rec)
  moreover from r(6) have "length (samples ev) = 8" unfolding t .
  moreover from r(7) have "blue_runs 0 ev = [5, 3, 0]" by (simp add: pe_def)
  ultimately have scenario:
    "\<exists>s1 s2 ev. pass [pe 100 5, pe 50 3, pe 0 0] s = Some (Inr s1) \<and> trace s1 = trace s @ ev
         \<and> unat (pitchIndex s1) = 2
         \<and> pitch_reads ev = [0, 1, 2]
         \<and> wav_reads ev = [0, 1, 2, 3, 4, 5, 6, 7]
         \<and> length (samples ev) = 8
         \<and> blue_runs 0 ev = [5, 3, 0]
         \<and> main_loop 2 [pe 100 5, pe 50 3, pe 0 0] s = Some (Inr s2) \<and> trace s2 = trace s @ ev @ ev"
    using r(1,2,8,9) by blast
  from general scenario show ?thesis by blast
qed

theorem pass_ends_at_first_sentinel_witness:
  "\<exists>s1 s2 ev. pass pitchTab \<lparr>PORTB = 0, OCR0A = 0, trace = [], gumIndex = 0, gumWavDat = 0,
                          pitchIndex = 0, pitchRate = 0, pitchLen = 0\<rparr> = Some (Inr s1)
     \<and> trace s1 = ev \<and> unat (pitchIndex s1) = 72 \<and> pitchRate s1 = 0
     \<and> length (samples ev) = 18007
     \<and> main_loop 2 pitchTab \<lparr>PORTB = 0, OCR0A = 0, trace = [], gumIndex = 0, gumWavDat = 0,
                          pitchIndex = 0, pitchRate = 0, pitchLen = 0\<rparr> = Some (Inr s2)
     \<and> trace s2 = ev @ ev"
proof -
  let ?s = "\<lparr>PORTB = 0, OCR0A = 0, trace = [], gumIndex = 0, gumWavDat = 0,
             pitchIndex = 0, pitchRate = 0, pitchLen = 0\<rparr>"
  from pass_ends_at_first_sentinel [of pitchTab "butlast pitchTab" "pe 0 0" "[]" ?s]
    pitchTab_split
  obtain s1 s2 ev where r: "pass pitchTab ?s = Some (Inr s1)" "trace s1 = trace ?s @ ev"
    "unat (pitchIndex s1) = length (butlast pitchTab)" "pitchRate s1 = 0"
    "length (samples ev) = total_duration (butlast pitchTab)"
    "main_loop 2 pitchTab ?s = Some (Inr s2)" "trace s2 = trace ?s @ ev @ ev"
    by blast
  from r(2) have "trace s1 = ev" by simp
  moreover from r(3) have "unat (pitchIndex s1) = 72" by (simp only: pitchTab_sizes)
  moreover from r(5) have "length (samples ev) = 18007" by (simp only: pitchTab_sizes)
  moreover from r(7) have "trace s2 = ev @ ev" by simp
  ultimately show ?thesis using r(1,4,6) by blast
qed

end
